theory Spec2Isabelle
  imports Main "HOL-Library.AList"
begin

section \<open>Python values used by the script\<close>

text \<open>
  Exceptions are values: every function that can raise returns a sum, with the exception
  on the left. \<open>ClientError\<close> stands for any exception raised inside the client library.
\<close>

datatype py_error = KeyError | ValueError | TypeError | AttributeError | JSONDecodeError | ClientError

text \<open>
  \<open>str(n)\<close> of an integer is its decimal numeral, with a minus sign when negative.
  \<open>int(s)\<close> of a string is modelled on numerals made of an optional sign and at least one
  ASCII digit, which covers every key the script writes (each is \<open>str(message.id)\<close>);
  other strings give \<open>ValueError\<close>. (Python also accepts surrounding whitespace and
  underscores between digits; such keys are outside the model.)
\<close>

definition digit_chars :: string where
  "digit_chars = ''0123456789''"

fun str_nat :: "nat \<Rightarrow> string" where
  "str_nat n = (if n < 10 then [digit_chars ! n]
                else str_nat (n div 10) @ [digit_chars ! (n mod 10)])"

declare str_nat.simps [simp del]

definition str_int :: "int \<Rightarrow> string" where
  "str_int i = (if i < 0 then CHR ''-'' # str_nat (nat (- i)) else str_nat (nat i))"

definition digit_val :: "char \<Rightarrow> nat option" where
  "digit_val c = (if c \<in> set digit_chars then Some (of_char c - 48) else None)"

fun digits_val :: "nat \<Rightarrow> string \<Rightarrow> nat option" where
  "digits_val a [] = Some a"
| "digits_val a (c # cs) =
     (case digit_val c of None \<Rightarrow> None | Some d \<Rightarrow> digits_val (10 * a + d) cs)"

definition nat_of_str :: "string \<Rightarrow> nat option" where
  "nat_of_str s = (if s = [] then None else digits_val 0 s)"

definition int_of_str :: "string \<Rightarrow> py_error + int" where
  "int_of_str s =
     (case s of
        [] \<Rightarrow> Inl ValueError
      | c # cs \<Rightarrow>
          if c = CHR ''-'' then
            (case nat_of_str cs of None \<Rightarrow> Inl ValueError | Some n \<Rightarrow> Inr (- int n))
          else if c = CHR ''+'' then
            (case nat_of_str cs of None \<Rightarrow> Inl ValueError | Some n \<Rightarrow> Inr (int n))
          else
            (case nat_of_str s of None \<Rightarrow> Inl ValueError | Some n \<Rightarrow> Inr (int n)))"

subsection \<open>\<open>int(str(n))\<close> is \<open>n\<close>\<close>

lemma digit_val_digit: "d < 10 \<Longrightarrow> digit_val (digit_chars ! d) = Some d"
proof -
  assume "d < 10"
  then have "d \<in> {0,1,2,3,4,5,6,7,8,9}" by auto
  then show ?thesis by (auto simp: digit_val_def digit_chars_def)
qed

lemma digits_val_append:
  "digits_val a (xs @ ys) = (case digits_val a xs of None \<Rightarrow> None | Some b \<Rightarrow> digits_val b ys)"
  by (induction xs arbitrary: a) (auto split: option.splits)

lemma digits_val_str_nat: "digits_val 0 (str_nat n) = Some n"
proof (induction n rule: str_nat.induct)
  case (1 n)
  show ?case
  proof (cases "n < 10")
    case True
    then show ?thesis by (simp add: str_nat.simps[of n] digit_val_digit)
  next
    case False
    with 1 have "digits_val 0 (str_nat (n div 10)) = Some (n div 10)" by simp
    with False show ?thesis
      by (simp add: str_nat.simps[of n] digits_val_append digit_val_digit)
  qed
qed

lemma str_nat_nonempty: "str_nat n \<noteq> []"
  by (subst str_nat.simps) simp

lemma nat_of_str_str_nat: "nat_of_str (str_nat n) = Some n"
  by (simp add: nat_of_str_def str_nat_nonempty digits_val_str_nat)

lemma str_nat_inj: "str_nat m = str_nat n \<Longrightarrow> m = n"
  by (metis nat_of_str_str_nat option.inject)

lemma digit_chars_nth_mem: "d < 10 \<Longrightarrow> digit_chars ! d \<in> set digit_chars"
  by (rule nth_mem) (simp add: digit_chars_def)

lemma hd_str_nat_digit: "hd (str_nat n) \<in> set digit_chars"
proof (induction n rule: str_nat.induct)
  case (1 n)
  show ?case
  proof (cases "n < 10")
    case True
    then show ?thesis by (simp add: str_nat.simps[of n] digit_chars_nth_mem)
  next
    case False
    with 1 show ?thesis
      by (simp add: str_nat.simps[of n] str_nat_nonempty)
  qed
qed

lemma int_of_str_str_int: "int_of_str (str_int i) = Inr i"
proof (cases "i < 0")
  case True
  then show ?thesis
    by (simp add: int_of_str_def str_int_def nat_of_str_str_nat)
next
  case False
  obtain c cs where s: "str_nat (nat i) = c # cs"
    using str_nat_nonempty[of "nat i"] by (cases "str_nat (nat i)") auto
  have "c \<in> set digit_chars" using hd_str_nat_digit[of "nat i"] s by simp
  then have "c \<noteq> CHR ''-''" "c \<noteq> CHR ''+''" by (auto simp: digit_chars_def)
  with False s show ?thesis
    using nat_of_str_str_nat[of "nat i"]
    by (simp add: int_of_str_def str_int_def)
qed

text \<open>\<open>needle in haystack\<close> on strings: the needle occurs as a contiguous run.\<close>

fun str_contains :: "string \<Rightarrow> string \<Rightarrow> bool" where
  "str_contains needle [] = (needle = [])"
| "str_contains needle (c # cs) =
     (take (length needle) (c # cs) = needle \<or> str_contains needle cs)"

text \<open>
  \<open>s[:-n]\<close> for \<open>n = len(ext)\<close>: Python reads \<open>-0\<close> as \<open>0\<close>, so an empty
  extension gives the empty string; otherwise the last \<open>n\<close> characters are dropped
  (all of them when \<open>n\<close> exceeds the length).
\<close>

definition slice_to_minus :: "string \<Rightarrow> nat \<Rightarrow> string" where
  "slice_to_minus s n = (if n = 0 then [] else take (length s - n) s)"

section \<open>Data model\<close>

text \<open>
  \<open>message.file\<close> of the client library: the original file name when there is one, the
  extension with its leading dot, and the MIME type.
\<close>

record File =
  name :: "string option"
  ext :: string
  mime_type :: string

record datetime =
  year :: nat
  month :: nat
  day :: nat
  hour :: nat
  minute :: nat

text \<open>
  A message of the client library, with the attributes the script reads. \<open>msg_media\<close> tells
  whether \<open>message.media\<close> is not \<open>None\<close>; \<open>msg_file\<close> is \<open>message.file\<close>.
\<close>

record Message =
  msg_id :: int
  msg_date :: datetime
  msg_media :: bool
  msg_file :: "File option"

text \<open>
  A record of the ledger is a dict with the keys \<open>has_media\<close>, \<open>downloaded\<close> (written
  only for media messages) and, during a run, \<open>message\<close>. An optional key is an option.
\<close>

record state_item =
  has_media :: bool
  downloaded :: "bool option"
  message :: "Message option"

text \<open>
  A dict keeps its keys in insertion order, which \<open>get_last_id\<close> relies on: it is an
  association list. \<open>d[k] = v\<close> is \<^const>\<open>AList.update\<close> (in place for a key that is
  there, at the end for a new one), \<open>k in d\<close> and \<open>d[k]\<close> are \<^const>\<open>map_of\<close>.
\<close>

type_synonym chat_state = "(string \<times> state_item) list"

type_synonym ledger = "(string \<times> chat_state) list"

text \<open>
  The world outside the process: the paths that are files, the content of
  \<open>state.json\<close> (absent, a ledger, or something \<open>json.load\<close> rejects), and a trace
  of the download requests issued and of the writes of \<open>state.json\<close>.
\<close>

datatype state_file = NoFile | Json ledger | Malformed

datatype event = Download Message string | Save state_file

record world =
  files :: "string list"
  state_json :: state_file
  trace :: "event list"

text \<open>
  The client for the chat being archived: whether \<open>get_entity\<close> resolves the chat, the
  chat's messages oldest first, an exception the history iterator may raise once these are
  delivered, and what \<open>download_media(message, path)\<close> does: the exception it raises or
  the path (or \<open>None\<close>) it returns, and the files it leaves on disk.
\<close>

record TelegramClient =
  entity_found :: bool
  history :: "Message list"
  history_error :: "py_error option"
  download_media :: "Message \<Rightarrow> string \<Rightarrow> (py_error + string option) \<times> string list"

text \<open>
  The client library is not part of the source. Modelled from the spec: the message stream
  of \<open>iter_messages(entity, reverse=True, min_id=last_id)\<close> is, in the words of the
  collaborator contract, "an oldest-to-newest message stream with a start strictly after
  this id filter".
\<close>

definition iter_messages :: "TelegramClient \<Rightarrow> int \<Rightarrow> Message list" where
  "iter_messages client min_id = filter (\<lambda>m. min_id < msg_id m) (history client)"

section \<open>Progress ledger: \<open>write_state_to_file\<close>, \<open>read_state_from_file\<close>\<close>

definition del_message :: "state_item \<Rightarrow> state_item" where
  "del_message state_item = state_item\<lparr>message := None\<rparr>"

text \<open>
  \<open>json.dump\<close> raises \<open>TypeError\<close> on a message object; the file, opened for writing
  and so truncated, is then left with a broken prefix.
\<close>

definition serializable :: "ledger \<Rightarrow> bool" where
  "serializable state =
     list_all (\<lambda>(chat_id, chat). list_all (\<lambda>(key, item). message item = None) chat) state"

definition write_state_to_file ::
  "ledger \<Rightarrow> string \<Rightarrow> world \<Rightarrow> (py_error + unit) \<times> ledger \<times> world" where
  "write_state_to_file state user_id w =
     (let state1 = (if map_of state user_id = None then AList.update user_id [] state else state);
          user_state = (case map_of state1 user_id of None \<Rightarrow> [] | Some chat \<Rightarrow> chat);
          state2 = AList.update user_id (map (\<lambda>(key, item). (key, del_message item)) user_state) state1
      in if serializable state2
         then (Inr (), state2,
               w\<lparr>state_json := Json state2, trace := trace w @ [Save (Json state2)]\<rparr>)
         else (Inl TypeError, state2,
               w\<lparr>state_json := Malformed, trace := trace w @ [Save Malformed]\<rparr>))"

definition read_state_from_file :: "world \<Rightarrow> py_error + ledger" where
  "read_state_from_file w =
     (case state_json w of
        NoFile \<Rightarrow> Inr []
      | Json state \<Rightarrow> Inr state
      | Malformed \<Rightarrow> Inl JSONDecodeError)"

section \<open>Resume cursor: \<open>get_last_id\<close>\<close>

text \<open>
  The loop of \<open>get_last_id\<close>; \<open>last_key\<close> is \<open>None\<close> while it still holds the
  integer \<open>0\<close> it starts with. Reading \<open>value["downloaded"]\<close> of a record without that
  key raises \<open>KeyError\<close>.
\<close>

fun scan_last_id :: "string option \<Rightarrow> chat_state \<Rightarrow> py_error + int" where
  "scan_last_id last_key [] = (case last_key of None \<Rightarrow> Inr 0 | Some k \<Rightarrow> int_of_str k)"
| "scan_last_id last_key ((key, item) # items) =
     (if has_media item then
        (case downloaded item of
           None \<Rightarrow> Inl KeyError
         | Some d \<Rightarrow> if \<not> d then int_of_str key else scan_last_id (Some key) items)
      else scan_last_id (Some key) items)"

definition get_last_id :: "ledger \<Rightarrow> string \<Rightarrow> (py_error + int) \<times> ledger" where
  "get_last_id state user_id =
     (case map_of state user_id of
        Some chat \<Rightarrow> (scan_last_id None chat, state)
      | None \<Rightarrow> (Inr 0, AList.update user_id [] state))"

section \<open>Path resolver: \<open>get_file_path\<close>\<close>

text \<open>
  \<open>date.strftime("%Y%m%d-%H%M")\<close>: the fields in decimal, padded with zeros to four
  digits for the year and two for the others.
\<close>

definition zero_pad :: "nat \<Rightarrow> nat \<Rightarrow> string" where
  "zero_pad width n = replicate (width - length (str_nat n)) CHR ''0'' @ str_nat n"

definition strftime :: "datetime \<Rightarrow> string" where
  "strftime d =
     zero_pad 4 (year d) @ zero_pad 2 (month d) @ zero_pad 2 (day d) @ ''-'' @
     zero_pad 2 (hour d) @ zero_pad 2 (minute d)"

text \<open>
  \<open>str(pathlib.Path("media", media_type, file))\<close>, for a last component that is a plain
  file name (not empty, no separator in it): the three components joined by \<open>/\<close>.
\<close>

definition media_path :: "string \<Rightarrow> string \<Rightarrow> string" where
  "media_path media_type file = ''media/'' @ media_type @ ''/'' @ file"

definition numbered_path :: "string \<Rightarrow> string \<Rightarrow> string \<Rightarrow> nat \<Rightarrow> string" where
  "numbered_path media_type file_name file_ext number =
     media_path media_type (file_name @ '' - '' @ str_nat number @ file_ext)"

lemma numbered_path_inj:
  "numbered_path media_type file_name file_ext m = numbered_path media_type file_name file_ext n
     \<Longrightarrow> m = n"
  by (simp add: numbered_path_def media_path_def str_nat_inj)

lemma finite_numbered_in:
  "finite {k. numbered_path media_type file_name file_ext k \<in> set fs}"
proof -
  have "inj (numbered_path media_type file_name file_ext)"
    by (rule injI) (rule numbered_path_inj)
  then have "finite (numbered_path media_type file_name file_ext -` set fs)"
    by (rule finite_vimageI[rotated]) simp
  then show ?thesis by (simp add: vimage_def)
qed

text \<open>
  The \<open>while conflict\<close> loop, entered with \<open>number\<close>: it increments the number, builds
  the numbered path and stops at the first one that is not a file. The files are finitely
  many and the numbered paths pairwise different, so it ends.
\<close>

function enumerate_path :: "string list \<Rightarrow> string \<Rightarrow> string \<Rightarrow> string \<Rightarrow> nat \<Rightarrow> string" where
  "enumerate_path fs media_type file_name file_ext number =
     (if numbered_path media_type file_name file_ext (number + 1) \<in> set fs
      then enumerate_path fs media_type file_name file_ext (number + 1)
      else numbered_path media_type file_name file_ext (number + 1))"
  by pat_completeness auto
termination
proof (relation "measure (\<lambda>(fs, media_type, file_name, file_ext, number).
    card {k. number < k \<and> numbered_path media_type file_name file_ext k \<in> set fs})")
  show "wf (measure (\<lambda>(fs, media_type, file_name, file_ext, number).
    card {k. number < k \<and> numbered_path media_type file_name file_ext k \<in> set fs}))"
    by simp
next
  fix fs :: "string list" and media_type file_name file_ext :: string and number :: nat
  assume hit: "numbered_path media_type file_name file_ext (number + 1) \<in> set fs"
  let ?S = "\<lambda>n. {k. n < k \<and> numbered_path media_type file_name file_ext k \<in> set fs}"
  have fin: "finite (?S number)"
    using finite_numbered_in[of media_type file_name file_ext fs] by simp
  have "?S (number + 1) \<subset> ?S number"
    using hit by auto
  then have "card (?S (number + 1)) < card (?S number)"
    using fin by (rule psubset_card_mono[rotated])
  then show "((fs, media_type, file_name, file_ext, number + 1),
              (fs, media_type, file_name, file_ext, number))
             \<in> measure (\<lambda>(fs, media_type, file_name, file_ext, number).
                 card {k. number < k \<and> numbered_path media_type file_name file_ext k \<in> set fs})"
    by simp
qed

declare enumerate_path.simps [simp del]

definition base_name :: "Message \<Rightarrow> File \<Rightarrow> string" where
  "base_name msg f =
     (case name f of
        Some file_name \<Rightarrow> slice_to_minus file_name (length (ext f))
      | None \<Rightarrow> str_int (msg_id msg) @ '' - '' @ strftime (msg_date msg))"

definition media_type_of :: "string \<Rightarrow> string" where
  "media_type_of mime =
     (if str_contains ''image'' mime then ''images''
      else if str_contains ''video'' mime then ''videos''
      else ''other'')"

text \<open>
  \<open>get_file_path\<close> reads the files on disk; \<open>message.file\<close> of a message without a
  file is \<open>None\<close>, and reading its \<open>name\<close> raises \<open>AttributeError\<close>.
\<close>

definition get_file_path :: "string list \<Rightarrow> Message \<Rightarrow> py_error + string" where
  "get_file_path fs msg =
     (case msg_file msg of
        None \<Rightarrow> Inl AttributeError
      | Some f \<Rightarrow>
          (let file_name = base_name msg f;
               media_type = media_type_of (mime_type f);
               path = media_path media_type (file_name @ ext f)
           in if path \<in> set fs
              then Inr (enumerate_path fs media_type file_name (ext f) 0)
              else Inr path))"

section \<open>Batch downloader: \<open>download_messages\<close>\<close>

text \<open>
  An entry of \<open>download_queue\<close> is one of the dict objects stored in \<open>chat_state\<close>
  (the object itself, not a copy): the model holds the key under which \<open>chat_state\<close>
  stores it and reads the record there. \<open>x["message"]\<close> of a record without that key
  raises \<open>KeyError\<close>.
\<close>

fun queue_messages :: "chat_state \<Rightarrow> string list \<Rightarrow> py_error + Message list" where
  "queue_messages chat_state [] = Inr []"
| "queue_messages chat_state (x # download_queue) =
     (case map_of chat_state x of
        None \<Rightarrow> Inl KeyError
      | Some item \<Rightarrow>
          (case message item of
             None \<Rightarrow> Inl KeyError
           | Some msg \<Rightarrow>
               (case queue_messages chat_state download_queue of
                  Inl e \<Rightarrow> Inl e
                | Inr msgs \<Rightarrow> Inr (msg # msgs))))"

text \<open>
  The list comprehension awaits \<open>get_file_path\<close> for one message after the other, and
  only builds the download requests: every path is resolved before any download starts.
\<close>

fun resolve_paths :: "string list \<Rightarrow> Message list \<Rightarrow> py_error + (Message \<times> string) list" where
  "resolve_paths fs [] = Inr []"
| "resolve_paths fs (msg # msgs) =
     (case get_file_path fs msg of
        Inl e \<Rightarrow> Inl e
      | Inr path \<Rightarrow>
          (case resolve_paths fs msgs of
             Inl e \<Rightarrow> Inl e
           | Inr tasks \<Rightarrow> Inr ((msg, path) # tasks)))"

text \<open>
  \<open>asyncio.gather\<close> returns the results in the order of the requests, or raises the
  exception of a request that raised (here: the first one in the order of the requests).
\<close>

fun gather :: "(py_error + 'a) list \<Rightarrow> py_error + 'a list" where
  "gather [] = Inr []"
| "gather (r # rs) =
     (case r of
        Inl e \<Rightarrow> Inl e
      | Inr x \<Rightarrow> (case gather rs of Inl e \<Rightarrow> Inl e | Inr xs \<Rightarrow> Inr (x # xs)))"

text \<open>The loop over \<open>enumerate(messages)\<close>, on the files on disk after the downloads.\<close>

fun mark_downloaded ::
  "string list \<Rightarrow> (Message \<times> string option) list \<Rightarrow> chat_state \<Rightarrow> (py_error + unit) \<times> chat_state" where
  "mark_downloaded fs [] chat_state = (Inr (), chat_state)"
| "mark_downloaded fs ((msg, file_path) # rest) chat_state =
     (case file_path of
        None \<Rightarrow> mark_downloaded fs rest chat_state
      | Some p \<Rightarrow>
          if p \<in> set fs then
            (case map_of chat_state (str_int (msg_id msg)) of
               None \<Rightarrow> (Inl KeyError, chat_state)
             | Some item \<Rightarrow>
                 mark_downloaded fs rest
                   (AList.update (str_int (msg_id msg)) (item\<lparr>downloaded := Some True\<rparr>) chat_state))
          else mark_downloaded fs rest chat_state)"

definition download_messages ::
  "TelegramClient \<Rightarrow> string list \<Rightarrow> chat_state \<Rightarrow> world \<Rightarrow> (py_error + unit) \<times> chat_state \<times> world" where
  "download_messages client download_queue chat_state w =
     (case queue_messages chat_state download_queue of
        Inl e \<Rightarrow> (Inl e, chat_state, w)
      | Inr messages \<Rightarrow>
          (case resolve_paths (files w) messages of
             Inl e \<Rightarrow> (Inl e, chat_state, w)
           | Inr tasks \<Rightarrow>
               (let outcomes = map (\<lambda>(msg, path). download_media client msg path) tasks;
                    w' = w\<lparr>files := files w @ concat (map snd outcomes),
                           trace := trace w @ map (\<lambda>(msg, path). Download msg path) tasks\<rparr>
                in case gather (map fst outcomes) of
                     Inl e \<Rightarrow> (Inl e, chat_state, w')
                   | Inr file_paths \<Rightarrow>
                       (case mark_downloaded (files w') (zip messages file_paths) chat_state of
                          (r, chat_state') \<Rightarrow> (r, chat_state', w')))))"

section \<open>Run loop: \<open>run\<close>\<close>

text \<open>
  The body of the \<open>async for\<close> loop up to the test of the queue length: the message is
  registered in \<open>chat_state\<close> and, when it is pending, appended to the queue.
\<close>

definition examine_message ::
  "Message \<Rightarrow> chat_state \<Rightarrow> string list \<Rightarrow> (py_error + unit) \<times> chat_state \<times> string list" where
  "examine_message msg chat_state download_queue =
     (let message_id = str_int (msg_id msg) in
      case map_of chat_state message_id of
        None \<Rightarrow>
          if msg_media msg \<and> msg_file msg \<noteq> None
          then (Inr (),
                AList.update message_id
                  \<lparr>has_media = True, downloaded = Some False, message = Some msg\<rparr> chat_state,
                download_queue @ [message_id])
          else (Inr (),
                AList.update message_id
                  \<lparr>has_media = False, downloaded = None, message = None\<rparr> chat_state,
                download_queue)
      | Some item \<Rightarrow>
          if has_media item then
            (case downloaded item of
               None \<Rightarrow> (Inl KeyError, chat_state, download_queue)
             | Some d \<Rightarrow>
                 if \<not> d
                 then (Inr (),
                       AList.update message_id (item\<lparr>message := Some msg\<rparr>) chat_state,
                       download_queue @ [message_id])
                 else (Inr (), chat_state, download_queue))
          else (Inr (), chat_state, download_queue))"

text \<open>
  \<open>chat_state\<close> is the dict object \<open>state[user_id]\<close>, so every change of it is a
  change of \<open>state\<close>.
\<close>

definition chat_of :: "ledger \<Rightarrow> string \<Rightarrow> chat_state" where
  "chat_of state user_id = (case map_of state user_id of None \<Rightarrow> [] | Some chat \<Rightarrow> chat)"

fun stream ::
  "TelegramClient \<Rightarrow> string \<Rightarrow> Message list \<Rightarrow> ledger \<Rightarrow> string list \<Rightarrow> world
     \<Rightarrow> (py_error + unit) \<times> ledger \<times> string list \<times> world" where
  "stream client user_id [] state download_queue w = (Inr (), state, download_queue, w)"
| "stream client user_id (msg # messages) state download_queue w =
     (case examine_message msg (chat_of state user_id) download_queue of
        (Inl e, chat_state, queue) \<Rightarrow> (Inl e, AList.update user_id chat_state state, queue, w)
      | (Inr u, chat_state, queue) \<Rightarrow>
          if length queue \<ge> 20 then
            (case download_messages client queue chat_state w of
               (Inl e, chat_state', w') \<Rightarrow> (Inl e, AList.update user_id chat_state' state, queue, w')
             | (Inr u, chat_state', w') \<Rightarrow>
                 (case write_state_to_file (AList.update user_id chat_state' state) user_id w' of
                    (Inl e, state', w'') \<Rightarrow> (Inl e, state', queue, w'')
                  | (Inr u, state', w'') \<Rightarrow> stream client user_id messages state' [] w''))
          else stream client user_id messages (AList.update user_id chat_state state) queue w)"

text \<open>The \<open>try\<close> block of \<open>run\<close>.\<close>

definition run_try ::
  "TelegramClient \<Rightarrow> string \<Rightarrow> ledger \<Rightarrow> world \<Rightarrow> (py_error + unit) \<times> ledger \<times> world" where
  "run_try client user_id state w =
     (if \<not> entity_found client then (Inl ClientError, state, w)
      else
        case get_last_id state user_id of
          (Inl e, state1) \<Rightarrow> (Inl e, state1, w)
        | (Inr last_id, state1) \<Rightarrow>
            (case stream client user_id (iter_messages client last_id) state1 [] w of
               (Inl e, state2, queue, w2) \<Rightarrow> (Inl e, state2, w2)
             | (Inr u, state2, queue, w2) \<Rightarrow>
                 (case history_error client of
                    Some e \<Rightarrow> (Inl e, state2, w2)
                  | None \<Rightarrow>
                      if length queue \<ge> 0 then
                        (case download_messages client queue (chat_of state2 user_id) w2 of
                           (r, chat_state, w3) \<Rightarrow> (r, AList.update user_id chat_state state2, w3))
                      else (Inr (), state2, w2))))"

text \<open>
  \<open>run\<close>: the state is read before the \<open>try\<close>; the \<open>finally\<close> clause writes it
  whatever the block did, and an exception of the write replaces the block's.
\<close>

definition run :: "TelegramClient \<Rightarrow> string \<Rightarrow> world \<Rightarrow> (py_error + unit) \<times> world" where
  "run client user_id w =
     (case read_state_from_file w of
        Inl e \<Rightarrow> (Inl e, w)
      | Inr state \<Rightarrow>
          (case run_try client user_id state w of
             (r, state1, w1) \<Rightarrow>
               (case write_state_to_file state1 user_id w1 of
                  (Inl e, state2, w2) \<Rightarrow> (Inl e, w2)
                | (Inr u, state2, w2) \<Rightarrow> (r, w2))))"

section \<open>Vocabulary of the statements\<close>

text \<open>
  A record is pending when it is a media record not yet downloaded, and settled when it is
  not a media record or is downloaded. (A media record without the key \<open>downloaded\<close>
  is neither: reading it raises \<open>KeyError\<close>.)
\<close>

definition pending :: "state_item \<Rightarrow> bool" where
  "pending item = (has_media item \<and> downloaded item = Some False)"

definition settled :: "state_item \<Rightarrow> bool" where
  "settled item = (\<not> has_media item \<or> downloaded item = Some True)"

text \<open>
  A task is a message of a batch with the path resolved for it. Its download request has a
  result; it succeeded when it returned a path that is a file on disk; a record is marked
  when a task of its key succeeded. The files on disk after the requests of a batch, and
  the trace of the requests.
\<close>

definition download_result :: "TelegramClient \<Rightarrow> Message \<times> string \<Rightarrow> py_error + string option" where
  "download_result client task = fst (download_media client (fst task) (snd task))"

definition download_succeeded :: "TelegramClient \<Rightarrow> string list \<Rightarrow> Message \<times> string \<Rightarrow> bool" where
  "download_succeeded client fs task =
     (case download_result client task of
        Inr (Some file_path) \<Rightarrow> file_path \<in> set fs
      | _ \<Rightarrow> False)"

definition files_after :: "TelegramClient \<Rightarrow> world \<Rightarrow> (Message \<times> string) list \<Rightarrow> string list" where
  "files_after client w tasks =
     files w @ concat (map (\<lambda>task. snd (download_media client (fst task) (snd task))) tasks)"

definition requests :: "(Message \<times> string) list \<Rightarrow> event list" where
  "requests tasks = map (\<lambda>task. Download (fst task) (snd task)) tasks"

definition mark_item :: "TelegramClient \<Rightarrow> string list \<Rightarrow> (Message \<times> string) list \<Rightarrow> string \<Rightarrow> state_item \<Rightarrow> state_item" where
  "mark_item client fs tasks k item =
     (if list_ex (\<lambda>task. str_int (msg_id (fst task)) = k \<and> download_succeeded client fs task) tasks
      then item\<lparr>downloaded := Some True\<rparr> else item)"


text \<open>
  The events of a run are those it appends to the trace. During streaming they come in
  rounds of twenty download requests followed by one save.
\<close>

definition is_save :: "event \<Rightarrow> bool" where
  "is_save e = (case e of Save f \<Rightarrow> True | Download msg path \<Rightarrow> False)"

definition new_events :: "world \<Rightarrow> world \<Rightarrow> event list" where
  "new_events w w' = drop (length (trace w)) (trace w')"


definition downloads_in :: "event list \<Rightarrow> nat" where
  "downloads_in evs = length (filter (\<lambda>e. \<not> is_save e) evs)"


text \<open>
  The keys of the messages a run has examined; how a record may differ from the record
  the run found at the same place (same key, same \<open>has_media\<close>, and \<open>downloaded\<close>
  as before or set to true for an examined message); the records of the chat as the run
  found them, followed by records of examined messages; and the queue as references to
  records that hold their message.
\<close>

definition keys_of :: "Message list \<Rightarrow> string set" where
  "keys_of messages = (\<lambda>msg. str_int (msg_id msg)) ` set messages"

definition follows :: "string set \<Rightarrow> string \<times> state_item \<Rightarrow> string \<times> state_item \<Rightarrow> bool" where
  "follows K before after =
     (fst after = fst before \<and> has_media (snd after) = has_media (snd before) \<and>
      (downloaded (snd after) = downloaded (snd before) \<or>
       downloaded (snd after) = Some True \<and> fst before \<in> K))"

definition evolved :: "string set \<Rightarrow> chat_state \<Rightarrow> chat_state \<Rightarrow> bool" where
  "evolved K chat0 chat =
     (\<exists>old new. chat = old @ new \<and> list_all2 (follows K) chat0 old \<and> fst ` set new \<subseteq> K)"

definition queued :: "string set \<Rightarrow> chat_state \<Rightarrow> string list \<Rightarrow> bool" where
  "queued K chat download_queue =
     (\<forall>x \<in> set download_queue.
        x \<in> K \<and> (\<exists>item msg. map_of chat x = Some item \<and> message item = Some msg \<and>
                   x = str_int (msg_id msg)))"

section \<open>Example inputs\<close>

text \<open>
  Messages, clients (downloads that all succeed, that return no result, that raise),
  ledgers and working directories used to instantiate the theorems.
\<close>

definition jpeg_file :: File where
  "jpeg_file = \<lparr>name = None, ext = ''.jpg'', mime_type = ''image/jpeg''\<rparr>"

definition date_ex :: datetime where
  "date_ex = \<lparr>year = 2024, month = 3, day = 7, hour = 9, minute = 5\<rparr>"

definition media_msg :: "int \<Rightarrow> Message" where
  "media_msg i = \<lparr>msg_id = i, msg_date = date_ex, msg_media = True, msg_file = Some jpeg_file\<rparr>"

definition text_msg :: "int \<Rightarrow> Message" where
  "text_msg i = \<lparr>msg_id = i, msg_date = date_ex, msg_media = False, msg_file = None\<rparr>"

definition world_empty :: world where
  "world_empty = \<lparr>files = [], state_json = NoFile, trace = []\<rparr>"

definition ok_client :: "Message list \<Rightarrow> TelegramClient" where
  "ok_client h = \<lparr>entity_found = True, history = h, history_error = None,
     download_media = (\<lambda>msg path. (Inr (Some path), [path]))\<rparr>"

definition named_msg :: "int \<Rightarrow> string \<Rightarrow> string \<Rightarrow> string \<Rightarrow> Message" where
  "named_msg i file_name file_ext mime =
     \<lparr>msg_id = i, msg_date = date_ex, msg_media = True,
      msg_file = Some \<lparr>name = Some file_name, ext = file_ext, mime_type = mime\<rparr>\<rparr>"

definition ledger_ex :: ledger where
  "ledger_ex = [(''chat'',
      [(''3'', \<lparr>has_media = False, downloaded = None, message = None\<rparr>),
       (''4'', \<lparr>has_media = True, downloaded = Some True, message = None\<rparr>),
       (''5'', \<lparr>has_media = True, downloaded = Some False, message = None\<rparr>),
       (''6'', \<lparr>has_media = True, downloaded = Some False, message = None\<rparr>)]),
     (''done'',
      [(''7'', \<lparr>has_media = True, downloaded = Some True, message = None\<rparr>),
       (''8'', \<lparr>has_media = False, downloaded = None, message = None\<rparr>)]),
     (''fresh'', [])]"

definition ledger_live :: ledger where
  "ledger_live = [(''chat'',
      [(''1'', \<lparr>has_media = False, downloaded = None, message = None\<rparr>),
       (''2'', \<lparr>has_media = True, downloaded = Some True, message = Some (media_msg 2)\<rparr>)]),
     (''other'',
      [(''9'', \<lparr>has_media = True, downloaded = Some False, message = None\<rparr>)])]"

definition flaky_client :: "Message list \<Rightarrow> TelegramClient" where
  "flaky_client h = \<lparr>entity_found = True, history = h, history_error = None,
     download_media = (\<lambda>msg path.
       if msg_id msg = 5 then (Inr None, [])
       else if msg_id msg = 7 then (Inr (Some path), [])
       else (Inr (Some path), [path]))\<rparr>"

definition chat_queued :: chat_state where
  "chat_queued =
     [(''4'', \<lparr>has_media = False, downloaded = None, message = None\<rparr>),
      (''5'', \<lparr>has_media = True, downloaded = Some False, message = Some (media_msg 5)\<rparr>),
      (''6'', \<lparr>has_media = True, downloaded = Some False, message = Some (media_msg 6)\<rparr>),
      (''7'', \<lparr>has_media = True, downloaded = Some False, message = Some (media_msg 7)\<rparr>)]"

definition tasks_queued :: "(Message \<times> string) list" where
  "tasks_queued =
     [(media_msg 5, ''media/images/5 - 20240307-0905.jpg''),
      (media_msg 6, ''media/images/6 - 20240307-0905.jpg''),
      (media_msg 7, ''media/images/7 - 20240307-0905.jpg'')]"


definition none_client :: "Message list \<Rightarrow> TelegramClient" where
  "none_client h = \<lparr>entity_found = True, history = h, history_error = None,
     download_media = (\<lambda>msg path. (Inr None, []))\<rparr>"

definition world_done :: world where
  "world_done =
     \<lparr>files = [''media/images/1 - 20240307-0905.jpg''],
      state_json = Json [(''chat'',
         [(''1'', \<lparr>has_media = True, downloaded = Some True, message = None\<rparr>)])],
      trace = [Download (media_msg 1) ''media/images/1 - 20240307-0905.jpg'',
         Save (Json [(''chat'',
           [(''1'', \<lparr>has_media = True, downloaded = Some True, message = None\<rparr>)])])]\<rparr>"

definition world_pending :: world where
  "world_pending =
     \<lparr>files = [],
      state_json = Json [(''chat'',
         [(''6'', \<lparr>has_media = True, downloaded = Some False, message = None\<rparr>),
          (''7'', \<lparr>has_media = True, downloaded = Some False, message = None\<rparr>)])],
      trace = [Download (media_msg 6) ''media/images/6 - 20240307-0905.jpg'',
         Download (media_msg 7) ''media/images/7 - 20240307-0905.jpg'',
         Save (Json [(''chat'',
           [(''6'', \<lparr>has_media = True, downloaded = Some False, message = None\<rparr>),
            (''7'', \<lparr>has_media = True, downloaded = Some False, message = None\<rparr>)])])]\<rparr>"

definition ledger_resume :: ledger where
  "ledger_resume = [(''chat'',
      [(''1'', \<lparr>has_media = True, downloaded = Some True, message = None\<rparr>),
       (''2'', \<lparr>has_media = True, downloaded = Some False, message = None\<rparr>),
       (''3'', \<lparr>has_media = True, downloaded = Some False, message = None\<rparr>)])]"

definition world_resume :: world where
  "world_resume =
     \<lparr>files = [''media/images/1 - 20240307-0905.jpg''],
      state_json = Json ledger_resume, trace = []\<rparr>"

section \<open>The resume cursor\<close>

lemma scan_last_id_first_pending:
  "list_all (\<lambda>(k, v). settled v) pre \<Longrightarrow> pending item \<Longrightarrow>
     scan_last_id last_key (pre @ (key, item) # post) = int_of_str key"
  by (induction pre arbitrary: last_key) (auto simp: settled_def pending_def)

lemma scan_last_id_all_settled:
  "list_all (\<lambda>(k, v). settled v) chat \<Longrightarrow>
     scan_last_id last_key chat =
       (if chat = [] then (case last_key of None \<Rightarrow> Inr 0 | Some k \<Rightarrow> int_of_str k)
        else int_of_str (fst (last chat)))"
  by (induction chat arbitrary: last_key) (auto simp: settled_def)

text \<open>
  Claim C8. \<open>get_last_id\<close> returns 0 and registers an empty record map when the chat id
  is absent from the ledger. Otherwise it scans the chat's records in insertion order and
  returns the id (the key read by \<open>int\<close>) of the first pending record, the records
  before it being settled; if every record is settled it returns the id of the last
  record; and the empty record map of an existing chat id yields 0. The ledger is
  unchanged in these three cases.
\<close>

theorem get_last_id_resume_point:
  "(map_of state user_id = None \<longrightarrow>
      get_last_id state user_id = (Inr 0, AList.update user_id [] state) \<and>
      map_of (snd (get_last_id state user_id)) user_id = Some [])
   \<and> (map_of state user_id = Some [] \<longrightarrow> get_last_id state user_id = (Inr 0, state))
   \<and> (map_of state user_id = Some (pre @ (key, item) # post) \<and>
        list_all (\<lambda>(k, v). settled v) pre \<and> pending item \<longrightarrow>
        get_last_id state user_id = (int_of_str key, state))
   \<and> (map_of state user_id = Some chat \<and> chat \<noteq> [] \<and> list_all (\<lambda>(k, v). settled v) chat \<longrightarrow>
        get_last_id state user_id = (int_of_str (fst (last chat)), state))"
  by (simp add: get_last_id_def scan_last_id_first_pending scan_last_id_all_settled update_conv')

theorem get_last_id_resume_point_witness:
  "get_last_id ledger_ex ''new'' = (Inr 0, ledger_ex @ [(''new'', [])])
   \<and> get_last_id ledger_ex ''fresh'' = (Inr 0, ledger_ex)
   \<and> get_last_id ledger_ex ''chat'' = (Inr 5, ledger_ex)
   \<and> get_last_id ledger_ex ''done'' = (Inr 8, ledger_ex)"
proof -
  note t = get_last_id_resume_point
  have a: "map_of ledger_ex ''new'' = None" by (simp add: ledger_ex_def)
  have b: "map_of ledger_ex ''fresh'' = Some []" by (simp add: ledger_ex_def)
  have c: "map_of ledger_ex ''chat'' =
      Some ([(''3'', \<lparr>has_media = False, downloaded = None, message = None\<rparr>),
             (''4'', \<lparr>has_media = True, downloaded = Some True, message = None\<rparr>)]
            @ (''5'', \<lparr>has_media = True, downloaded = Some False, message = None\<rparr>)
            # [(''6'', \<lparr>has_media = True, downloaded = Some False, message = None\<rparr>)])"
    by (simp add: ledger_ex_def)
  have d: "map_of ledger_ex ''done'' =
      Some [(''7'', \<lparr>has_media = True, downloaded = Some True, message = None\<rparr>),
            (''8'', \<lparr>has_media = False, downloaded = None, message = None\<rparr>)]"
    by (simp add: ledger_ex_def)
  have i5: "int_of_str ''5'' = Inr 5" and i8: "int_of_str ''8'' = Inr 8"
    by (simp_all add: int_of_str_def nat_of_str_def digit_val_def digit_chars_def)
  have "get_last_id ledger_ex ''new'' = (Inr 0, AList.update ''new'' [] ledger_ex)"
    using t[of ledger_ex "''new''"] a by simp
  moreover have "AList.update ''new'' [] ledger_ex = ledger_ex @ [(''new'', [])]"
    by (simp add: ledger_ex_def)
  moreover have "get_last_id ledger_ex ''fresh'' = (Inr 0, ledger_ex)"
    using t[of ledger_ex "''fresh''"] b by simp
  moreover have "get_last_id ledger_ex ''chat'' = (int_of_str ''5'', ledger_ex)"
    using t[of ledger_ex "''chat''"
        "[(''3'', \<lparr>has_media = False, downloaded = None, message = None\<rparr>),
          (''4'', \<lparr>has_media = True, downloaded = Some True, message = None\<rparr>)]"
        "''5''" "\<lparr>has_media = True, downloaded = Some False, message = None\<rparr>"
        "[(''6'', \<lparr>has_media = True, downloaded = Some False, message = None\<rparr>)]"] c
    by (simp add: settled_def pending_def)
  moreover have "get_last_id ledger_ex ''done'' = (int_of_str ''8'', ledger_ex)"
    using t[of ledger_ex "''done''" _ _ _ _
        "[(''7'', \<lparr>has_media = True, downloaded = Some True, message = None\<rparr>),
          (''8'', \<lparr>has_media = False, downloaded = None, message = None\<rparr>)]"] d
    by (simp add: settled_def)
  ultimately show ?thesis by (simp add: i5 i8)
qed

section \<open>Saving and loading the ledger\<close>

lemma map_of_strip:
  "map_of (map (\<lambda>(key, item). (key, del_message item)) chat) k = map_option del_message (map_of chat k)"
  by (induction chat) auto

lemma serializable_chat:
  "serializable state \<Longrightarrow> map_of state user_id = Some chat \<Longrightarrow>
     list_all (\<lambda>(key, item). message item = None) chat"
  unfolding serializable_def
  by (induction state) (auto split: if_splits)

text \<open>
  Claim C10. \<open>write_state_to_file\<close> changes the ledger it is given (the ledger it
  returns is the caller's): it inserts an empty record map for the chat id when absent,
  deletes the key \<open>message\<close> from every record of that chat's map before it
  serializes, and leaves every other chat as it is, with the \<open>message\<close> keys its
  records may hold. After a successful save the file holds the returned ledger, and no
  record of the saved chat has a \<open>message\<close> key, in the file or in memory.
\<close>

theorem write_state_to_file_frame:
  "(case write_state_to_file state user_id w of
      (r, state', w') \<Rightarrow>
        (map_of state user_id = None \<longrightarrow> map_of state' user_id = Some [])
        \<and> (map_of state user_id = Some chat \<longrightarrow>
             map_of state' user_id = Some (map (\<lambda>(key, item). (key, del_message item)) chat))
        \<and> (other \<noteq> user_id \<longrightarrow> map_of state' other = map_of state other)
        \<and> (r = Inr () \<longrightarrow>
             state_json w' = Json state' \<and>
             list_all (\<lambda>(key, item). message item = None) (chat_of state' user_id)))"
proof -
  obtain r state' w' where res: "write_state_to_file state user_id w = (r, state', w')"
    by (cases "write_state_to_file state user_id w") auto
  have a: "map_of state user_id = None \<longrightarrow> map_of state' user_id = Some []"
    using res by (auto simp: write_state_to_file_def Let_def update_conv' split: if_splits)
  have b: "map_of state user_id = Some chat \<longrightarrow>
      map_of state' user_id = Some (map (\<lambda>(key, item). (key, del_message item)) chat)"
    using res by (auto simp: write_state_to_file_def Let_def update_conv' split: if_splits)
  have c: "other \<noteq> user_id \<longrightarrow> map_of state' other = map_of state other"
    using res by (auto simp: write_state_to_file_def Let_def update_conv' split: if_splits)
  have d: "r = Inr () \<longrightarrow> state_json w' = Json state' \<and>
      list_all (\<lambda>(key, item). message item = None) (chat_of state' user_id)"
  proof
    assume ok: "r = Inr ()"
    with res have ser: "serializable state'" and js: "state_json w' = Json state'"
      by (auto simp: write_state_to_file_def Let_def split: if_splits)
    have "list_all (\<lambda>(key, item). message item = None) (chat_of state' user_id)"
    proof (cases "map_of state' user_id")
      case None
      then show ?thesis by (simp add: chat_of_def)
    next
      case (Some c)
      with ser show ?thesis by (simp add: chat_of_def serializable_chat)
    qed
    with js show "state_json w' = Json state' \<and>
      list_all (\<lambda>(key, item). message item = None) (chat_of state' user_id)" by simp
  qed
  from a b c d show ?thesis by (simp add: res)
qed

theorem write_state_to_file_frame_witness:
  "map_of ledger_live ''new'' = None
   \<and> map_of ledger_live ''chat'' = Some
        [(''1'', \<lparr>has_media = False, downloaded = None, message = None\<rparr>),
         (''2'', \<lparr>has_media = True, downloaded = Some True, message = Some (media_msg 2)\<rparr>)]
   \<and> fst (write_state_to_file ledger_live ''chat'' world_empty) = Inr ()
   \<and> map_of (fst (snd (write_state_to_file ledger_live ''new'' world_empty))) ''new'' = Some []
   \<and> map_of (fst (snd (write_state_to_file ledger_live ''chat'' world_empty))) ''chat'' = Some
        [(''1'', \<lparr>has_media = False, downloaded = None, message = None\<rparr>),
         (''2'', \<lparr>has_media = True, downloaded = Some True, message = None\<rparr>)]
   \<and> map_of (fst (snd (write_state_to_file ledger_live ''chat'' world_empty))) ''other'' =
        map_of ledger_live ''other''
   \<and> state_json (snd (snd (write_state_to_file ledger_live ''chat'' world_empty))) =
        Json (fst (snd (write_state_to_file ledger_live ''chat'' world_empty)))"
proof -
  have n: "map_of ledger_live ''new'' = None" by (simp add: ledger_live_def)
  have c: "map_of ledger_live ''chat'' = Some
        [(''1'', \<lparr>has_media = False, downloaded = None, message = None\<rparr>),
         (''2'', \<lparr>has_media = True, downloaded = Some True, message = Some (media_msg 2)\<rparr>)]"
    by (simp add: ledger_live_def)
  have ok: "fst (write_state_to_file ledger_live ''chat'' world_empty) = Inr ()"
    by (simp add: write_state_to_file_def ledger_live_def serializable_def del_message_def Let_def)
  have t1: "map_of (fst (snd (write_state_to_file ledger_live ''new'' world_empty))) ''new'' = Some []"
    using write_state_to_file_frame[where state = ledger_live and user_id = "''new''" and w = world_empty
        and other = "''other''"] n
    by (auto split: prod.splits)
  have t2: "map_of (fst (snd (write_state_to_file ledger_live ''chat'' world_empty))) ''chat'' = Some
        [(''1'', \<lparr>has_media = False, downloaded = None, message = None\<rparr>),
         (''2'', \<lparr>has_media = True, downloaded = Some True, message = None\<rparr>)]
      \<and> map_of (fst (snd (write_state_to_file ledger_live ''chat'' world_empty))) ''other'' =
        map_of ledger_live ''other''
      \<and> state_json (snd (snd (write_state_to_file ledger_live ''chat'' world_empty))) =
        Json (fst (snd (write_state_to_file ledger_live ''chat'' world_empty)))"
    using write_state_to_file_frame[where state = ledger_live and user_id = "''chat''"
        and w = world_empty and other = "''other''" and chat =
        "[(''1'', \<lparr>has_media = False, downloaded = None, message = None\<rparr>),
          (''2'', \<lparr>has_media = True, downloaded = Some True, message = Some (media_msg 2)\<rparr>)]"] c ok
    by (auto simp: del_message_def split: prod.splits)
  from n c ok t1 t2 show ?thesis by simp
qed

text \<open>
  Claim C9. Loading gives the empty ledger when \<open>state.json\<close> does not exist. When the
  file is there and \<open>json.load\<close> rejects it, loading raises; \<open>run\<close> reads the state
  before its \<open>try\<close> block, so the exception leaves \<open>run\<close> at once: nothing is
  downloaded, nothing is written, and the old file stays as it was.
\<close>

theorem read_state_from_file_load:
  "(state_json w = NoFile \<longrightarrow> read_state_from_file w = Inr [])
   \<and> (state_json w = Malformed \<longrightarrow>
        read_state_from_file w = Inl JSONDecodeError \<and>
        run client user_id w = (Inl JSONDecodeError, w))"
  by (simp add: read_state_from_file_def run_def)

theorem read_state_from_file_load_witness:
  "read_state_from_file world_empty = Inr []
   \<and> read_state_from_file (world_empty\<lparr>state_json := Malformed\<rparr>) = Inl JSONDecodeError
   \<and> run (ok_client [media_msg 1]) ''chat'' (world_empty\<lparr>state_json := Malformed\<rparr>) =
       (Inl JSONDecodeError, world_empty\<lparr>state_json := Malformed\<rparr>)"
  using read_state_from_file_load[where w = world_empty]
    read_state_from_file_load[where w = "world_empty\<lparr>state_json := Malformed\<rparr>"
      and client = "ok_client [media_msg 1]" and user_id = "''chat''"]
  by (simp add: world_empty_def)

section \<open>The path resolver\<close>







text \<open>
  The law is about the files on disk at the moment of each call. Within one batch,
  \<open>download_messages\<close> resolves every path before any download starts, so two messages
  of the same batch with the same name and extension get the same path.
\<close>

lemma resolve_paths_same_name:
  "resolve_paths []
     [named_msg 4 ''cat.jpg'' ''.jpg'' ''image/jpeg'', named_msg 5 ''cat.jpg'' ''.jpg'' ''image/jpeg''] =
   Inr [(named_msg 4 ''cat.jpg'' ''.jpg'' ''image/jpeg'', ''media/images/cat.jpg''),
        (named_msg 5 ''cat.jpg'' ''.jpg'' ''image/jpeg'', ''media/images/cat.jpg'')]"
  by (simp add: get_file_path_def named_msg_def base_name_def slice_to_minus_def
      media_type_of_def media_path_def)

text \<open>
  The base name: the original file name without its last \<open>len(ext)\<close> characters, which
  is the name without its extension when the name ends with the declared extension; and
  the message id and date when there is no original name.
\<close>

lemma base_name_cases:
  "(name f = Some (stem @ ext f) \<and> ext f \<noteq> [] \<longrightarrow> base_name msg f = stem)
   \<and> (name f = None \<longrightarrow>
        base_name msg f = str_int (msg_id msg) @ '' - '' @ strftime (msg_date msg))"
  by (simp add: base_name_def slice_to_minus_def)

text \<open>
  Claim C7 says that the base name of a message with an original file name is that name
  with its extension stripped. The code drops as many characters as the declared
  extension has, whatever the name ends with: \<open>photo.jpeg\<close> with the declared extension
  \<open>.jpg\<close> becomes \<open>photo..jpg\<close>, and \<open>README\<close> with \<open>.txt\<close> becomes \<open>RE.txt\<close>.
\<close>

theorem get_file_path_extension_mismatch:
  "get_file_path [] (named_msg 7 ''photo.jpeg'' ''.jpg'' ''image/jpeg'') = Inr ''media/images/photo..jpg''
   \<and> get_file_path [] (named_msg 8 ''README'' ''.txt'' ''text/plain'') = Inr ''media/other/RE.txt''"
  by (simp add: get_file_path_def named_msg_def base_name_def slice_to_minus_def
      media_type_of_def media_path_def)

section \<open>The batch downloader\<close>

lemma resolve_paths_fst:
  "resolve_paths fs messages = Inr tasks \<Longrightarrow> map fst tasks = messages"
  by (induction messages arbitrary: tasks) (auto split: sum.splits)


lemma gather_map_Inr: "gather (map Inr xs) = Inr xs"
  by (induction xs) auto

lemma gather_Inr_D: "gather rs = Inr xs \<Longrightarrow> rs = map Inr xs"
  by (induction rs arbitrary: xs) (auto split: sum.splits)

lemma gather_Inr_iff: "gather rs = Inr xs \<longleftrightarrow> rs = map Inr xs"
  using gather_map_Inr gather_Inr_D by blast

lemma gather_Inl: "gather rs = Inl e \<Longrightarrow> Inl e \<in> set rs"
  by (induction rs) (auto split: sum.splits)

lemma gather_cases:
  "(\<exists>xs. gather rs = Inr xs) \<or> (\<exists>e. gather rs = Inl e)"
  by (cases "gather rs") auto


text \<open>What \<open>download_messages\<close> does once the messages and the paths are there.\<close>

lemma download_messages_unfold:
  assumes "queue_messages chat_state download_queue = Inr messages"
    and "resolve_paths (files w) messages = Inr tasks"
  shows "download_messages client download_queue chat_state w =
     (let w' = w\<lparr>files := files_after client w tasks, trace := trace w @ requests tasks\<rparr>
      in case gather (map (download_result client) tasks) of
           Inl e \<Rightarrow> (Inl e, chat_state, w')
         | Inr file_paths \<Rightarrow>
             (case mark_downloaded (files w') (zip messages file_paths) chat_state of
                (r, chat_state') \<Rightarrow> (r, chat_state', w')))"
proof -
  have 1: "map (\<lambda>(msg, path). Download msg path) tasks = requests tasks"
    by (simp add: requests_def case_prod_unfold)
  have 2: "map fst (map (\<lambda>(msg, path). download_media client msg path) tasks) =
      map (download_result client) tasks"
    by (simp add: download_result_def case_prod_unfold)
  have 3: "files w @ concat (map snd (map (\<lambda>(msg, path). download_media client msg path) tasks)) =
      files_after client w tasks"
    by (simp add: files_after_def case_prod_unfold comp_def)
  show ?thesis
    unfolding download_messages_def Let_def
    by (simp only: assms sum.case 1 2 3)
qed

lemma map_of_key_in: "map_of al k = Some v \<Longrightarrow> k \<in> fst ` set al"
  by (induction al) (auto split: if_splits)

lemma mark_downloaded_zip:
  "map (download_result client) tasks = map Inr file_paths \<Longrightarrow>
   list_all (\<lambda>task. map_of chat_state (str_int (msg_id (fst task))) \<noteq> None) tasks \<Longrightarrow>
   \<exists>chat_state'.
     mark_downloaded fs (zip (map fst tasks) file_paths) chat_state = (Inr (), chat_state')
     \<and> map fst chat_state' = map fst chat_state
     \<and> (\<forall>k. map_of chat_state' k = map_option (mark_item client fs tasks k) (map_of chat_state k))"
proof (induction tasks arbitrary: file_paths chat_state)
  case Nil
  have "mark_item client fs [] = (\<lambda>k item. item)"
    by (simp add: mark_item_def fun_eq_iff)
  then show ?case using Nil by (simp add: option.map_ident)
next
  case (Cons task tasks)
  from Cons.prems(1) obtain fp fps where fp: "file_paths = fp # fps"
    and r: "download_result client task = Inr fp"
    and rest: "map (download_result client) tasks = map Inr fps"
    by (cases file_paths) auto
  let ?k = "str_int (msg_id (fst task))"
  from Cons.prems(2) obtain item where item: "map_of chat_state ?k = Some item"
    and keys: "list_all (\<lambda>task. map_of chat_state (str_int (msg_id (fst task))) \<noteq> None) tasks"
    by auto
  show ?case
  proof (cases "download_succeeded client fs task")
    case True
    with r obtain p where p: "fp = Some p" "p \<in> set fs"
      by (auto simp: download_succeeded_def split: option.splits)
    let ?cs = "AList.update ?k (item\<lparr>downloaded := Some True\<rparr>) chat_state"
    have keys': "list_all (\<lambda>task. map_of ?cs (str_int (msg_id (fst task))) \<noteq> None) tasks"
      using keys by (simp add: list_all_iff update_conv')
    from Cons.IH[OF rest keys'] obtain cs' where
      m: "mark_downloaded fs (zip (map fst tasks) fps) ?cs = (Inr (), cs')"
      and k: "map fst cs' = map fst ?cs"
      and v: "\<forall>k. map_of cs' k = map_option (mark_item client fs tasks k) (map_of ?cs k)"
      by blast
    have k0: "map fst ?cs = map fst chat_state"
      using item by (simp add: update_keys map_of_key_in)
    have "mark_downloaded fs (zip (map fst (task # tasks)) file_paths) chat_state = (Inr (), cs')"
      using fp p item m by (cases task) simp
    moreover have "map fst cs' = map fst chat_state" using k k0 by simp
    moreover have "\<forall>k. map_of cs' k =
        map_option (mark_item client fs (task # tasks) k) (map_of chat_state k)"
    proof
      fix k
      show "map_of cs' k = map_option (mark_item client fs (task # tasks) k) (map_of chat_state k)"
      proof (cases "k = ?k")
        case True
        then show ?thesis
          using v item \<open>download_succeeded client fs task\<close>
          by (simp add: update_conv' mark_item_def)
      next
        case False
        then have "mark_item client fs (task # tasks) k = mark_item client fs tasks k"
          by (auto simp: mark_item_def fun_eq_iff)
        with False v show ?thesis by (simp add: update_conv')
      qed
    qed
    ultimately show ?thesis by blast
  next
    case False
    from Cons.IH[OF rest keys] obtain cs' where
      m: "mark_downloaded fs (zip (map fst tasks) fps) chat_state = (Inr (), cs')"
      and k: "map fst cs' = map fst chat_state"
      and v: "\<forall>k. map_of cs' k = map_option (mark_item client fs tasks k) (map_of chat_state k)"
      by blast
    have "mark_downloaded fs (zip (map fst (task # tasks)) file_paths) chat_state = (Inr (), cs')"
      using fp r m False
      by (cases task) (auto simp: download_succeeded_def split: option.splits)
    moreover have "mark_item client fs (task # tasks) = mark_item client fs tasks"
      using False by (auto simp: mark_item_def fun_eq_iff)
    ultimately show ?thesis using k v by auto
  qed
qed

text \<open>
  Claim C4. When every download call of a batch has returned (none raised), the batch
  downloader ends normally, keeps the keys of \<open>chat_state\<close>, and changes a record in
  one way only: \<open>downloaded\<close> becomes true exactly for a record of which a download
  returned a path that is a file on disk after the downloads. Every other record is
  unchanged, among them each record whose download returned no result or a path that
  does not exist: its \<open>downloaded\<close> stays false.
\<close>

theorem download_messages_marks:
  "queue_messages chat_state download_queue = Inr messages \<Longrightarrow>
   resolve_paths (files w) messages = Inr tasks \<Longrightarrow>
   list_all (\<lambda>task. \<exists>file_path. download_result client task = Inr file_path) tasks \<Longrightarrow>
   list_all (\<lambda>task. map_of chat_state (str_int (msg_id (fst task))) \<noteq> None) tasks \<Longrightarrow>
   \<exists>chat_state'.
     download_messages client download_queue chat_state w =
       (Inr (), chat_state',
        w\<lparr>files := files_after client w tasks, trace := trace w @ requests tasks\<rparr>)
     \<and> map fst chat_state' = map fst chat_state
     \<and> (\<forall>k. map_of chat_state' k =
            map_option (mark_item client (files_after client w tasks) tasks k) (map_of chat_state k))"
proof -
  assume q: "queue_messages chat_state download_queue = Inr messages"
    and p: "resolve_paths (files w) messages = Inr tasks"
    and ret: "list_all (\<lambda>task. \<exists>file_path. download_result client task = Inr file_path) tasks"
    and keys: "list_all (\<lambda>task. map_of chat_state (str_int (msg_id (fst task))) \<noteq> None) tasks"
  from ret have "\<exists>file_paths. map (download_result client) tasks = map Inr file_paths"
  proof (induction tasks)
    case Nil
    then show ?case by simp
  next
    case (Cons t ts)
    then obtain fp fps where "download_result client t = Inr fp"
      "map (download_result client) ts = map Inr fps" by auto
    then have "map (download_result client) (t # ts) = map Inr (fp # fps)" by simp
    then show ?case by blast
  qed
  then obtain file_paths where fps: "map (download_result client) tasks = map Inr file_paths"
    by blast
  then have g: "gather (map (download_result client) tasks) = Inr file_paths"
    by (simp add: gather_map_Inr)
  have m: "messages = map fst tasks" using resolve_paths_fst[OF p] by simp
  let ?fs = "files_after client w tasks"
  from mark_downloaded_zip[OF fps keys, of ?fs] obtain cs' where
    mk: "mark_downloaded ?fs (zip (map fst tasks) file_paths) chat_state = (Inr (), cs')"
    and k: "map fst cs' = map fst chat_state"
    and v: "\<forall>k. map_of cs' k = map_option (mark_item client ?fs tasks k) (map_of chat_state k)"
    by blast
  have "download_messages client download_queue chat_state w =
       (Inr (), cs', w\<lparr>files := ?fs, trace := trace w @ requests tasks\<rparr>)"
    by (simp add: download_messages_unfold[OF q p] Let_def g m mk)
  with k v show ?thesis by blast
qed

lemma queue_messages_queued:
  "queue_messages chat_queued [''5'', ''6'', ''7''] = Inr [media_msg 5, media_msg 6, media_msg 7]"
  by (simp add: chat_queued_def)

lemma resolve_paths_queued:
  "resolve_paths [] [media_msg 5, media_msg 6, media_msg 7] = Inr tasks_queued"
  by code_simp

lemma str_int_567: "str_int 5 = ''5''" "str_int 6 = ''6''" "str_int 7 = ''7''"
  by code_simp+

theorem download_messages_marks_witness:
  "fst (download_messages (flaky_client []) [''5'', ''6'', ''7''] chat_queued world_empty) = Inr ()
   \<and> fst (snd (download_messages (flaky_client []) [''5'', ''6'', ''7''] chat_queued world_empty)) =
     [(''4'', \<lparr>has_media = False, downloaded = None, message = None\<rparr>),
      (''5'', \<lparr>has_media = True, downloaded = Some False, message = Some (media_msg 5)\<rparr>),
      (''6'', \<lparr>has_media = True, downloaded = Some True, message = Some (media_msg 6)\<rparr>),
      (''7'', \<lparr>has_media = True, downloaded = Some False, message = Some (media_msg 7)\<rparr>)]"
proof -
  have ret: "list_all (\<lambda>task. \<exists>file_path. download_result (flaky_client []) task = Inr file_path)
      tasks_queued"
    by (simp add: tasks_queued_def download_result_def flaky_client_def media_msg_def)
  have keys: "list_all (\<lambda>task. map_of chat_queued (str_int (msg_id (fst task))) \<noteq> None) tasks_queued"
    by (simp add: tasks_queued_def chat_queued_def media_msg_def str_int_567)
  have p: "resolve_paths (files world_empty) [media_msg 5, media_msg 6, media_msg 7] = Inr tasks_queued"
    using resolve_paths_queued by (simp add: world_empty_def)
  from download_messages_marks[OF queue_messages_queued p ret keys] obtain cs' where
    r: "download_messages (flaky_client []) [''5'', ''6'', ''7''] chat_queued world_empty =
       (Inr (), cs', world_empty\<lparr>files := files_after (flaky_client []) world_empty tasks_queued,
          trace := trace world_empty @ requests tasks_queued\<rparr>)"
    and k: "map fst cs' = map fst chat_queued"
    and v: "\<forall>k. map_of cs' k = map_option
        (mark_item (flaky_client []) (files_after (flaky_client []) world_empty tasks_queued)
           tasks_queued k) (map_of chat_queued k)"
    by blast
  have ks: "map fst cs' = [''4'', ''5'', ''6'', ''7'']" using k by (simp add: chat_queued_def)
  let ?mark = "mark_item (flaky_client []) (files_after (flaky_client []) world_empty tasks_queued)
      tasks_queued"
  have m4: "?mark ''4'' \<lparr>has_media = False, downloaded = None, message = None\<rparr> =
      \<lparr>has_media = False, downloaded = None, message = None\<rparr>"
    by code_simp
  have m5: "?mark ''5'' \<lparr>has_media = True, downloaded = Some False, message = Some (media_msg 5)\<rparr> =
      \<lparr>has_media = True, downloaded = Some False, message = Some (media_msg 5)\<rparr>"
    by code_simp
  have m6: "?mark ''6'' \<lparr>has_media = True, downloaded = Some False, message = Some (media_msg 6)\<rparr> =
      \<lparr>has_media = True, downloaded = Some True, message = Some (media_msg 6)\<rparr>"
    by code_simp
  have m7: "?mark ''7'' \<lparr>has_media = True, downloaded = Some False, message = Some (media_msg 7)\<rparr> =
      \<lparr>has_media = True, downloaded = Some False, message = Some (media_msg 7)\<rparr>"
    by code_simp
  have c4: "map_of chat_queued ''4'' = Some \<lparr>has_media = False, downloaded = None, message = None\<rparr>"
    and c5: "map_of chat_queued ''5'' =
      Some \<lparr>has_media = True, downloaded = Some False, message = Some (media_msg 5)\<rparr>"
    and c6: "map_of chat_queued ''6'' =
      Some \<lparr>has_media = True, downloaded = Some False, message = Some (media_msg 6)\<rparr>"
    and c7: "map_of chat_queued ''7'' =
      Some \<lparr>has_media = True, downloaded = Some False, message = Some (media_msg 7)\<rparr>"
    by (simp_all add: chat_queued_def)
  have v4: "map_of cs' ''4'' = Some \<lparr>has_media = False, downloaded = None, message = None\<rparr>"
    by (simp only: v c4 option.map m4)
  have v5: "map_of cs' ''5'' =
      Some \<lparr>has_media = True, downloaded = Some False, message = Some (media_msg 5)\<rparr>"
    by (simp only: v c5 option.map m5)
  have v6: "map_of cs' ''6'' =
      Some \<lparr>has_media = True, downloaded = Some True, message = Some (media_msg 6)\<rparr>"
    by (simp only: v c6 option.map m6)
  have v7: "map_of cs' ''7'' =
      Some \<lparr>has_media = True, downloaded = Some False, message = Some (media_msg 7)\<rparr>"
    by (simp only: v c7 option.map m7)
  obtain a b c d where cs: "cs' = [(''4'', a), (''5'', b), (''6'', c), (''7'', d)]"
    using ks by (auto simp: map_eq_Cons_conv)
  from cs v4 v5 v6 v7 have "cs' =
     [(''4'', \<lparr>has_media = False, downloaded = None, message = None\<rparr>),
      (''5'', \<lparr>has_media = True, downloaded = Some False, message = Some (media_msg 5)\<rparr>),
      (''6'', \<lparr>has_media = True, downloaded = Some True, message = Some (media_msg 6)\<rparr>),
      (''7'', \<lparr>has_media = True, downloaded = Some False, message = Some (media_msg 7)\<rparr>)]"
    by simp
  with r show ?thesis by simp
qed

section \<open>Traces of a run\<close>







lemma stream_Cons_cases:
  assumes "stream client user_id (msg # messages) state download_queue w = res"
  obtains
    (examine_raises) e chat_state queue where
      "examine_message msg (chat_of state user_id) download_queue = (Inl e, chat_state, queue)"
      "res = (Inl e, AList.update user_id chat_state state, queue, w)"
  | (no_flush) chat_state queue where
      "examine_message msg (chat_of state user_id) download_queue = (Inr (), chat_state, queue)"
      "length queue < 20"
      "res = stream client user_id messages (AList.update user_id chat_state state) queue w"
  | (download_raises) chat_state queue e chat_state' w' where
      "examine_message msg (chat_of state user_id) download_queue = (Inr (), chat_state, queue)"
      "20 \<le> length queue"
      "download_messages client queue chat_state w = (Inl e, chat_state', w')"
      "res = (Inl e, AList.update user_id chat_state' state, queue, w')"
  | (write_raises) chat_state queue chat_state' w' e state' w'' where
      "examine_message msg (chat_of state user_id) download_queue = (Inr (), chat_state, queue)"
      "20 \<le> length queue"
      "download_messages client queue chat_state w = (Inr (), chat_state', w')"
      "write_state_to_file (AList.update user_id chat_state' state) user_id w' = (Inl e, state', w'')"
      "res = (Inl e, state', queue, w'')"
  | (flush) chat_state queue chat_state' w' state' w'' where
      "examine_message msg (chat_of state user_id) download_queue = (Inr (), chat_state, queue)"
      "20 \<le> length queue"
      "download_messages client queue chat_state w = (Inr (), chat_state', w')"
      "write_state_to_file (AList.update user_id chat_state' state) user_id w' = (Inr (), state', w'')"
      "res = stream client user_id messages state' [] w''"
proof -
  obtain r1 chat_state queue where ex:
    "examine_message msg (chat_of state user_id) download_queue = (r1, chat_state, queue)"
    by (cases "examine_message msg (chat_of state user_id) download_queue") auto
  show thesis
  proof (cases r1)
    case (Inl e)
    with ex assms examine_raises show ?thesis by simp
  next
    case (Inr u)
    show ?thesis
    proof (cases "20 \<le> length queue")
      case False
      with ex Inr assms no_flush show ?thesis by simp
    next
      case True
      obtain r2 chat_state' w' where dl:
        "download_messages client queue chat_state w = (r2, chat_state', w')"
        by (cases "download_messages client queue chat_state w") auto
      show ?thesis
      proof (cases r2)
        case (Inl e)
        with ex Inr True dl assms download_raises show ?thesis by simp
      next
        case (Inr u2)
        note r2 = Inr
        obtain r3 state' w'' where wr:
          "write_state_to_file (AList.update user_id chat_state' state) user_id w' = (r3, state', w'')"
          by (cases "write_state_to_file (AList.update user_id chat_state' state) user_id w'") auto
        show ?thesis
        proof (cases r3)
          case (Inl e)
          with ex \<open>r1 = Inr u\<close> True dl r2 wr assms write_raises show ?thesis by simp
        next
          case (Inr u3)
          with ex \<open>r1 = Inr u\<close> True dl r2 wr assms flush show ?thesis by simp
        qed
      qed
    qed
  qed
qed




lemma run_ok_cases:
  assumes "run client user_id w = (Inr (), w')"
  obtains state last_id state1 state2 queue w2 chat_state w3 state4 where
    "read_state_from_file w = Inr state"
    "entity_found client"
    "get_last_id state user_id = (Inr last_id, state1)"
    "stream client user_id (iter_messages client last_id) state1 [] w = (Inr (), state2, queue, w2)"
    "history_error client = None"
    "download_messages client queue (chat_of state2 user_id) w2 = (Inr (), chat_state, w3)"
    "write_state_to_file (AList.update user_id chat_state state2) user_id w3 = (Inr (), state4, w')"
proof -
  from assms obtain state where rd: "read_state_from_file w = Inr state"
    by (cases "read_state_from_file w") (auto simp: run_def)
  obtain r state5 w5 where tr: "run_try client user_id state w = (r, state5, w5)"
    by (cases "run_try client user_id state w") auto
  obtain r6 state6 w6 where wr: "write_state_to_file state5 user_id w5 = (r6, state6, w6)"
    by (cases "write_state_to_file state5 user_id w5") auto
  from assms rd tr wr have r6: "r6 = Inr ()" and r: "r = Inr ()" and w6: "w6 = w'"
    by (cases r6; simp add: run_def)+
  from tr r have ent: "entity_found client"
    by (auto simp: run_try_def split: if_splits)
  obtain r1 state1 where gl: "get_last_id state user_id = (r1, state1)"
    by (cases "get_last_id state user_id") auto
  from tr r ent gl obtain last_id where r1: "r1 = Inr last_id"
    by (cases r1) (auto simp: run_try_def)
  obtain r2 state2 queue w2 where
    st: "stream client user_id (iter_messages client last_id) state1 [] w = (r2, state2, queue, w2)"
    by (cases "stream client user_id (iter_messages client last_id) state1 [] w") auto
  from tr r ent gl r1 st have r2: "r2 = Inr ()"
    by (cases r2) (auto simp: run_try_def)
  from tr r ent gl r1 st r2 have he: "history_error client = None"
    by (cases "history_error client") (auto simp: run_try_def)
  obtain r3 chat_state w3 where
    dl: "download_messages client queue (chat_of state2 user_id) w2 = (r3, chat_state, w3)"
    by (cases "download_messages client queue (chat_of state2 user_id) w2") auto
  from tr r ent gl r1 st r2 he dl have "r3 = Inr ()" "state5 = AList.update user_id chat_state state2"
    "w5 = w3"
    by (auto simp: run_try_def)
  with rd ent gl r1 st r2 he dl wr r6 w6 that show thesis by simp
qed





lemma run_one_media:
  "run (ok_client [media_msg 1]) ''chat'' world_empty =
     (Inr (),
      \<lparr>files = [''media/images/1 - 20240307-0905.jpg''],
       state_json = Json [(''chat'',
          [(''1'', \<lparr>has_media = True, downloaded = Some True, message = None\<rparr>)])],
       trace = [Download (media_msg 1) ''media/images/1 - 20240307-0905.jpg'',
          Save (Json [(''chat'',
            [(''1'', \<lparr>has_media = True, downloaded = Some True, message = None\<rparr>)])])]\<rparr>)"
  by code_simp







section \<open>How a run changes the records of the chat\<close>

lemma follows_refl: "follows K p p"
  by (simp add: follows_def)

lemma evolved_refl: "evolved K chat chat"
proof -
  have "list_all2 (follows K) chat chat"
    by (simp add: list_all2_same follows_refl)
  then have "chat = chat @ [] \<and> list_all2 (follows K) chat chat \<and> fst ` set [] \<subseteq> K" by simp
  then show ?thesis unfolding evolved_def by blast
qed

lemma follows_mono: "K \<subseteq> K' \<Longrightarrow> follows K p q \<Longrightarrow> follows K' p q"
  by (auto simp: follows_def)

lemma evolved_mono: "K \<subseteq> K' \<Longrightarrow> evolved K chat0 chat \<Longrightarrow> evolved K' chat0 chat"
proof -
  assume sub: "K \<subseteq> K'" and "evolved K chat0 chat"
  then obtain old new where c: "chat = old @ new" and l: "list_all2 (follows K) chat0 old"
    and n: "fst ` set new \<subseteq> K"
    unfolding evolved_def by blast
  from l have "list_all2 (follows K') chat0 old"
    by (rule list_all2_mono) (rule follows_mono[OF sub])
  with c n sub show ?thesis unfolding evolved_def by blast
qed

lemma update_append_old:
  "k \<in> fst ` set old \<Longrightarrow> AList.update k v (old @ new) = AList.update k v old @ new"
  by (induction old) auto

lemma update_append_new:
  "k \<notin> fst ` set old \<Longrightarrow> AList.update k v (old @ new) = old @ AList.update k v new"
  by (induction old) auto

lemma map_of_append_old:
  "k \<in> fst ` set old \<Longrightarrow> map_of (old @ new) k = map_of old k"
  by (induction old) auto

lemma follows_update:
  "list_all2 (follows K) chat0 old \<Longrightarrow> map_of old k = Some i \<Longrightarrow>
   has_media v = has_media i \<Longrightarrow>
   downloaded v = downloaded i \<or> downloaded v = Some True \<and> k \<in> K \<Longrightarrow>
   list_all2 (follows K) chat0 (AList.update k v old)"
proof (induction chat0 old rule: list_all2_induct)
  case Nil
  then show ?case by simp
next
  case (Cons p ps q qs)
  show ?case
  proof (cases "fst q = k")
    case True
    with Cons.prems(1) have "snd q = i" by (cases q) auto
    with True Cons.hyps(1) Cons.prems(2,3) have "follows K p (k, v)"
      by (auto simp: follows_def)
    with True Cons.hyps(2) show ?thesis by (cases q) auto
  next
    case False
    with Cons.prems(1) have "map_of qs k = Some i" by (cases q) auto
    from Cons.IH[OF this Cons.prems(2,3)] False Cons.hyps(1) show ?thesis
      by (cases q) auto
  qed
qed

lemma evolved_update:
  assumes ev: "evolved K chat0 chat" and k: "k \<in> K"
    and v: "\<And>i. map_of chat k = Some i \<Longrightarrow>
      has_media v = has_media i \<and> (downloaded v = downloaded i \<or> downloaded v = Some True)"
  shows "evolved K chat0 (AList.update k v chat)"
proof -
  from ev obtain old new where c: "chat = old @ new" and l: "list_all2 (follows K) chat0 old"
    and n: "fst ` set new \<subseteq> K"
    unfolding evolved_def by blast
  show ?thesis
  proof (cases "k \<in> fst ` set old")
    case True
    then obtain i where i: "map_of old k = Some i"
      by (metis domD dom_map_of_conv_image_fst)
    with True c have "map_of chat k = Some i" by (simp add: map_of_append_old)
    from v[OF this] k have "has_media v = has_media i"
      "downloaded v = downloaded i \<or> downloaded v = Some True \<and> k \<in> K" by auto
    from follows_update[OF l i this]
    have "list_all2 (follows K) chat0 (AList.update k v old)" .
    moreover have "AList.update k v chat = AList.update k v old @ new"
      using True c by (simp add: update_append_old)
    ultimately show ?thesis using n unfolding evolved_def by blast
  next
    case False
    then have "AList.update k v chat = old @ AList.update k v new"
      using c by (simp add: update_append_new)
    moreover have "fst ` set (AList.update k v new) \<subseteq> K"
      using n k by (simp add: dom_update)
    ultimately show ?thesis using l unfolding evolved_def by blast
  qed
qed

lemma evolved_del_message:
  assumes "evolved K chat0 chat"
  shows "evolved K chat0 (map (\<lambda>(key, item). (key, del_message item)) chat)"
proof -
  let ?d = "map (\<lambda>(key, item). (key, del_message item))"
  from assms obtain old new where c: "chat = old @ new" and l: "list_all2 (follows K) chat0 old"
    and n: "fst ` set new \<subseteq> K"
    unfolding evolved_def by blast
  from l have "list_all2 (follows K) chat0 (?d old)"
  proof (induction chat0 old rule: list_all2_induct)
    case Nil
    then show ?case by simp
  next
    case (Cons p ps q qs)
    then show ?case by (cases q) (auto simp: follows_def del_message_def)
  qed
  moreover have "fst ` set (?d new) \<subseteq> K" using n by force
  moreover have "?d chat = ?d old @ ?d new" using c by simp
  ultimately show ?thesis unfolding evolved_def by blast
qed

lemma examine_message_cases:
  assumes "examine_message msg chat download_queue = (Inr (), chat', queue)"
  obtains
    (fresh) v where "map_of chat (str_int (msg_id msg)) = None"
      "chat' = AList.update (str_int (msg_id msg)) v chat"
      "queue = download_queue \<or>
       queue = download_queue @ [str_int (msg_id msg)] \<and> message v = Some msg"
  | (pending) item where "map_of chat (str_int (msg_id msg)) = Some item"
      "has_media item" "downloaded item = Some False"
      "chat' = AList.update (str_int (msg_id msg)) (item\<lparr>message := Some msg\<rparr>) chat"
      "queue = download_queue @ [str_int (msg_id msg)]"
  | (settled) item where "map_of chat (str_int (msg_id msg)) = Some item"
      "\<not> has_media item \<or> downloaded item = Some True"
      "chat' = chat" "queue = download_queue"
proof (cases "map_of chat (str_int (msg_id msg))")
  case None
  let ?k = "str_int (msg_id msg)"
  show ?thesis
  proof (cases "msg_media msg \<and> msg_file msg \<noteq> None")
    case True
    let ?v = "\<lparr>has_media = True, downloaded = Some False, message = Some msg\<rparr>"
    from assms None True have "chat' = AList.update ?k ?v chat" "queue = download_queue @ [?k]"
      by (simp_all add: examine_message_def Let_def)
    then show ?thesis using None fresh[of ?v] by simp
  next
    case False
    let ?v = "\<lparr>has_media = False, downloaded = None, message = None\<rparr>"
    from assms None False have "chat' = AList.update ?k ?v chat" "queue = download_queue"
      by (auto simp add: examine_message_def Let_def split: if_splits)
    then show ?thesis using None fresh[of ?v] by simp
  qed
next
  case (Some item)
  note item = Some
  show ?thesis
  proof (cases "has_media item")
    case False
    with item assms have "chat' = chat" "queue = download_queue"
      by (simp_all add: examine_message_def Let_def)
    then show ?thesis using item False settled[of item] by simp
  next
    case True
    show ?thesis
    proof (cases "downloaded item")
      case None
      with True item assms show ?thesis
        by (simp add: examine_message_def Let_def)
    next
      case (Some d)
      show ?thesis
      proof (cases d)
        case True
        with Some \<open>has_media item\<close> item assms have "chat' = chat" "queue = download_queue"
          by (simp_all add: examine_message_def Let_def)
        then show ?thesis using item True Some settled[of item] by simp
      next
        case False
        with Some \<open>has_media item\<close> item assms
        have "chat' = AList.update (str_int (msg_id msg)) (item\<lparr>message := Some msg\<rparr>) chat"
          "queue = download_queue @ [str_int (msg_id msg)]"
          by (simp_all add: examine_message_def Let_def)
        then show ?thesis using item False Some \<open>has_media item\<close> pending[of item] by simp
      qed
    qed
  qed
qed

lemma queued_mono: "K \<subseteq> K' \<Longrightarrow> queued K chat q \<Longrightarrow> queued K' chat q"
  by (auto simp: queued_def)

lemma examine_message_evolved:
  assumes ex: "examine_message msg chat download_queue = (Inr (), chat', queue)"
    and ev: "evolved K chat0 chat"
  shows "evolved (insert (str_int (msg_id msg)) K) chat0 chat'"
proof -
  let ?k = "str_int (msg_id msg)"
  have ev': "evolved (insert ?k K) chat0 chat"
    using ev by (rule evolved_mono[rotated]) auto
  from ex show ?thesis
  proof (cases rule: examine_message_cases)
    case (fresh v)
    then show ?thesis using evolved_update[OF ev', of ?k v] by simp
  next
    case (pending item)
    then show ?thesis using evolved_update[OF ev', of ?k "item\<lparr>message := Some msg\<rparr>"] by simp
  next
    case (settled item)
    then show ?thesis using ev' by simp
  qed
qed

lemma examine_message_queued:
  assumes ex: "examine_message msg chat download_queue = (Inr (), chat', queue)"
    and qd: "queued K chat download_queue"
  shows "queued (insert (str_int (msg_id msg)) K) chat' queue"
proof -
  let ?k = "str_int (msg_id msg)"
  from ex show ?thesis
  proof (cases rule: examine_message_cases)
    case (fresh v)
    have "queued (insert ?k K) chat' download_queue"
      unfolding queued_def
    proof
      fix x assume "x \<in> set download_queue"
      with qd obtain item m where x: "x \<in> K" "map_of chat x = Some item"
        "message item = Some m" "x = str_int (msg_id m)"
        unfolding queued_def by blast
      with fresh(1) have "x \<noteq> ?k" by auto
      with x fresh(2) show "x \<in> insert ?k K \<and>
        (\<exists>item msg. map_of chat' x = Some item \<and> message item = Some msg \<and> x = str_int (msg_id msg))"
        by (auto simp: update_conv')
    qed
    with fresh show ?thesis
      by (auto simp: queued_def update_conv')
  next
    case (pending item)
    show ?thesis
      unfolding queued_def
    proof
      fix x assume xin: "x \<in> set queue"
      show "x \<in> insert ?k K \<and>
        (\<exists>item msg. map_of chat' x = Some item \<and> message item = Some msg \<and> x = str_int (msg_id msg))"
      proof (cases "x = ?k")
        case True
        with pending show ?thesis by (auto simp: update_conv')
      next
        case False
        with xin pending have "x \<in> set download_queue" by auto
        with qd obtain item' m where x: "x \<in> K" "map_of chat x = Some item'"
          "message item' = Some m" "x = str_int (msg_id m)"
          unfolding queued_def by blast
        with False pending show ?thesis by (auto simp: update_conv')
      qed
    qed
  next
    case (settled item)
    with qd show ?thesis using queued_mono[of K "insert ?k K"] by auto
  qed
qed

lemma examine_message_keys:
  assumes ex: "examine_message msg chat download_queue = (Inr (), chat', queue)"
    and ks: "K \<subseteq> fst ` set chat"
  shows "insert (str_int (msg_id msg)) K \<subseteq> fst ` set chat'"
  using ex
proof (cases rule: examine_message_cases)
  case (fresh v)
  with ks show ?thesis by (auto simp: dom_update)
next
  case (pending item)
  with ks show ?thesis by (auto simp: dom_update)
next
  case (settled item)
  then have "str_int (msg_id msg) \<in> fst ` set chat"
    by (metis domI dom_map_of_conv_image_fst)
  with settled ks show ?thesis by auto
qed

lemma mark_downloaded_evolved:
  "mark_downloaded fs results chat = (r, chat') \<Longrightarrow> evolved K chat0 chat \<Longrightarrow>
   (\<forall>p \<in> set results. str_int (msg_id (fst p)) \<in> K) \<Longrightarrow>
   evolved K chat0 chat' \<and> fst ` set chat' = fst ` set chat"
proof (induction results arbitrary: chat)
  case Nil
  then show ?case by simp
next
  case (Cons p results)
  obtain msg file_path where p: "p = (msg, file_path)" by (cases p)
  let ?k = "str_int (msg_id msg)"
  from Cons.prems(3) p have k: "?k \<in> K"
    and rest: "\<forall>p \<in> set results. str_int (msg_id (fst p)) \<in> K" by auto
  show ?case
  proof (cases "\<exists>path item. file_path = Some path \<and> path \<in> set fs \<and> map_of chat ?k = Some item")
    case True
    then obtain path item where fp: "file_path = Some path" "path \<in> set fs"
      and item: "map_of chat ?k = Some item" by blast
    let ?chat = "AList.update ?k (item\<lparr>downloaded := Some True\<rparr>) chat"
    from Cons.prems(1) p fp item have m: "mark_downloaded fs results ?chat = (r, chat')" by simp
    have ev: "evolved K chat0 ?chat"
      using evolved_update[OF Cons.prems(2) k, of "item\<lparr>downloaded := Some True\<rparr>"] item by simp
    have "?k \<in> fst ` set chat" using item by (metis domI dom_map_of_conv_image_fst)
    then have ks: "fst ` set ?chat = fst ` set chat" by (auto simp: dom_update)
    from Cons.IH[OF m ev rest] ks show ?thesis by simp
  next
    case False
    then have "mark_downloaded fs (p # results) chat = mark_downloaded fs results chat \<or>
      mark_downloaded fs (p # results) chat = (Inl KeyError, chat)"
      using p by (cases file_path; cases "map_of chat ?k") auto
    then show ?thesis
    proof
      assume "mark_downloaded fs (p # results) chat = mark_downloaded fs results chat"
      with Cons.prems(1) have "mark_downloaded fs results chat = (r, chat')" by simp
      from Cons.IH[OF this Cons.prems(2) rest] show ?thesis .
    next
      assume "mark_downloaded fs (p # results) chat = (Inl KeyError, chat)"
      with Cons.prems(1,2) show ?thesis by simp
    qed
  qed
qed

lemma queue_messages_keys:
  "queue_messages chat download_queue = Inr messages \<Longrightarrow> queued K chat download_queue \<Longrightarrow>
   \<forall>msg \<in> set messages. str_int (msg_id msg) \<in> K"
proof (induction download_queue arbitrary: messages)
  case Nil
  then show ?case by simp
next
  case (Cons x download_queue)
  from Cons.prems(2) have qd: "queued K chat download_queue"
    and x: "x \<in> K" "\<exists>item msg. map_of chat x = Some item \<and> message item = Some msg \<and>
      x = str_int (msg_id msg)"
    by (auto simp: queued_def)
  from x(2) obtain item msg where i: "map_of chat x = Some item" "message item = Some msg"
    "x = str_int (msg_id msg)" by blast
  with Cons.prems(1) obtain msgs where ms: "queue_messages chat download_queue = Inr msgs"
    "messages = msg # msgs"
    by (cases "queue_messages chat download_queue") auto
  from Cons.IH[OF ms(1) qd] ms(2) i(3) x(1) show ?case by auto
qed

lemma download_messages_evolved:
  assumes dl: "download_messages client download_queue chat w = (r, chat', w')"
    and qd: "queued K chat download_queue" and ev: "evolved K chat0 chat"
  shows "evolved K chat0 chat' \<and> fst ` set chat' = fst ` set chat"
proof (cases "queue_messages chat download_queue")
  case (Inl e)
  with dl have "chat' = chat" by (auto simp: download_messages_def)
  with ev show ?thesis by simp
next
  case (Inr messages)
  note q = Inr
  show ?thesis
  proof (cases "resolve_paths (files w) messages")
    case (Inl e)
    with dl q have "chat' = chat" by (auto simp: download_messages_def)
    with ev show ?thesis by simp
  next
    case (Inr tasks)
    note p = Inr
    show ?thesis
    proof (cases "gather (map (download_result client) tasks)")
      case (Inl e)
      with dl have "chat' = chat"
        by (auto simp: download_messages_unfold[OF q p] Let_def)
      with ev show ?thesis by simp
    next
      case (Inr file_paths)
      with dl obtain fs where
        m: "mark_downloaded fs (zip messages file_paths) chat = (r, chat')"
        by (auto simp: download_messages_unfold[OF q p] Let_def split: prod.splits)
      have "\<forall>p \<in> set (zip messages file_paths). str_int (msg_id (fst p)) \<in> K"
        using queue_messages_keys[OF q qd] by (auto dest: set_zip_leftD)
      from mark_downloaded_evolved[OF m ev this] show ?thesis .
    qed
  qed
qed

lemma chat_of_update: "chat_of (AList.update user_id chat state) user_id = chat"
  by (simp add: chat_of_def update_conv')

lemma write_state_to_file_chat:
  assumes "write_state_to_file state user_id w = (r, state', w')"
  shows "chat_of state' user_id = map (\<lambda>(key, item). (key, del_message item)) (chat_of state user_id)"
proof (cases "map_of state user_id")
  case None
  with assms show ?thesis
    by (auto simp: write_state_to_file_def Let_def chat_of_def update_conv' split: if_splits)
next
  case (Some chat)
  with assms show ?thesis
    by (auto simp: write_state_to_file_def Let_def chat_of_def update_conv' split: if_splits)
qed

lemma keys_del_message:
  "fst ` set (map (\<lambda>(key, item). (key, del_message item)) chat) = fst ` set chat"
  by force

lemma queued_Nil: "queued K chat []"
  by (simp add: queued_def)

lemma keys_of_Cons: "keys_of (msg # messages) = insert (str_int (msg_id msg)) (keys_of messages)"
  by (simp add: keys_of_def)

lemma stream_evolved:
  "stream client user_id messages state download_queue w = (Inr (), state', queue', w') \<Longrightarrow>
   evolved K chat0 (chat_of state user_id) \<Longrightarrow>
   queued K (chat_of state user_id) download_queue \<Longrightarrow>
   K \<subseteq> fst ` set (chat_of state user_id) \<Longrightarrow>
   evolved (K \<union> keys_of messages) chat0 (chat_of state' user_id)
   \<and> queued (K \<union> keys_of messages) (chat_of state' user_id) queue'
   \<and> K \<union> keys_of messages \<subseteq> fst ` set (chat_of state' user_id)"
proof (induction messages arbitrary: state download_queue w K)
  case Nil
  then show ?case by (simp add: keys_of_def)
next
  case (Cons msg messages)
  let ?k = "str_int (msg_id msg)"
  have K: "insert ?k K \<union> keys_of messages = K \<union> keys_of (msg # messages)"
    by (simp add: keys_of_Cons)
  from Cons.prems(1) show ?case
  proof (cases rule: stream_Cons_cases)
    case (examine_raises e chat_state queue)
    then show ?thesis by simp
  next
    case (no_flush chat_state queue)
    have "evolved (insert ?k K) chat0 (chat_of (AList.update user_id chat_state state) user_id)"
      "queued (insert ?k K) (chat_of (AList.update user_id chat_state state) user_id) queue"
      "insert ?k K \<subseteq> fst ` set (chat_of (AList.update user_id chat_state state) user_id)"
      using examine_message_evolved[OF no_flush(1) Cons.prems(2)]
        examine_message_queued[OF no_flush(1) Cons.prems(3)]
        examine_message_keys[OF no_flush(1) Cons.prems(4)]
      by (simp_all add: chat_of_update)
    from Cons.IH[OF no_flush(3)[symmetric] this] show ?thesis
      unfolding K .
  next
    case (download_raises chat_state queue e chat_state' w1)
    then show ?thesis by simp
  next
    case (write_raises chat_state queue chat_state' w1 e state1 w2)
    then show ?thesis by simp
  next
    case (flush chat_state queue chat_state' w1 state1 w2)
    have ev: "evolved (insert ?k K) chat0 chat_state"
      and qd: "queued (insert ?k K) chat_state queue"
      and ks: "insert ?k K \<subseteq> fst ` set chat_state"
      using examine_message_evolved[OF flush(1) Cons.prems(2)]
        examine_message_queued[OF flush(1) Cons.prems(3)]
        examine_message_keys[OF flush(1) Cons.prems(4)]
      by simp_all
    from download_messages_evolved[OF flush(3) qd ev]
    have ev': "evolved (insert ?k K) chat0 chat_state'"
      and ks': "fst ` set chat_state' = fst ` set chat_state" by simp_all
    from write_state_to_file_chat[OF flush(4)]
    have c: "chat_of state1 user_id = map (\<lambda>(key, item). (key, del_message item)) chat_state'"
      by (simp add: chat_of_update)
    have "evolved (insert ?k K) chat0 (chat_of state1 user_id)"
      "queued (insert ?k K) (chat_of state1 user_id) []"
      "insert ?k K \<subseteq> fst ` set (chat_of state1 user_id)"
      using evolved_del_message[OF ev'] ks ks'
      by (simp_all only: c queued_Nil keys_del_message)
    from Cons.IH[OF flush(5)[symmetric] this] show ?thesis
      unfolding K .
  qed
qed

section \<open>Two runs in succession\<close>

lemma scan_last_id_unsettled:
  "list_all (\<lambda>(k, v). settled v) pre \<Longrightarrow> \<not> settled item \<Longrightarrow>
     scan_last_id last_key (pre @ (key, item) # post) =
       (if downloaded item = Some False then int_of_str key else Inl KeyError)"
  by (induction pre arbitrary: last_key) (auto simp: settled_def split: option.splits)

lemma follows_keys: "list_all2 (follows K) chat0 old \<Longrightarrow> map fst old = map fst chat0"
  by (induction chat0 old rule: list_all2_induct) (auto simp: follows_def)

lemma first_unsettled:
  assumes "\<not> list_all (\<lambda>(k, v). settled v) chat"
  obtains pre key item post where "chat = pre @ (key, item) # post"
    "list_all (\<lambda>(k, v). settled v) pre" "\<not> settled item"
proof -
  from assms have "\<exists>p \<in> set chat. \<not> settled (snd p)"
    by (force simp: list_all_iff)
  from split_list_first_prop[OF this] obtain pre p post where
    c: "chat = pre @ p # post" and p: "\<not> settled (snd p)"
    and pre: "\<forall>y \<in> set pre. \<not> \<not> settled (snd y)" by blast
  from pre have "list_all (\<lambda>(k, v). settled v) pre" by (auto simp: list_all_iff)
  with c p that[of pre "fst p" "snd p" post] show thesis by simp
qed

lemma resume_after_settled:
  assumes ev: "evolved (keys_of (filter (\<lambda>msg. c < msg_id msg) h)) chat0 chat1"
    and st: "list_all (\<lambda>(k, v). settled v) chat1"
    and sc: "scan_last_id None chat0 = Inr c"
  shows "\<exists>c'. scan_last_id None chat1 = Inr c' \<and> c \<le> c'"
proof -
  let ?K = "keys_of (filter (\<lambda>msg. c < msg_id msg) h)"
  from ev obtain old new where c1: "chat1 = old @ new"
    and l: "list_all2 (follows ?K) chat0 old" and n: "fst ` set new \<subseteq> ?K"
    unfolding evolved_def by blast
  have inK: "\<And>k. k \<in> ?K \<Longrightarrow> \<exists>i. int_of_str k = Inr i \<and> c < i"
    by (auto simp: keys_of_def int_of_str_str_int)
  have st0: "list_all (\<lambda>(k, v). settled v) chat0"
  proof (rule ccontr)
    assume "\<not> list_all (\<lambda>(k, v). settled v) chat0"
    then obtain pre key item post where c0: "chat0 = pre @ (key, item) # post"
      and pre: "list_all (\<lambda>(k, v). settled v) pre" and item: "\<not> settled item"
      by (rule first_unsettled)
    from sc scan_last_id_unsettled[OF pre item, of None key post] c0
    have d: "downloaded item = Some False" and ik: "int_of_str key = Inr c"
      by (auto split: if_splits)
    from l c0 obtain us q zs where o: "old = us @ q # zs" and f: "follows ?K (key, item) q"
      by (auto simp: list_all2_append1 list_all2_Cons1)
    from o have q: "q \<in> set old" by simp
    from q c1 have "q \<in> set chat1" by simp
    with st have "case q of (k, v) \<Rightarrow> settled v" unfolding list_all_iff by blast
    then have "settled (snd q)" by (simp add: case_prod_unfold)
    with f item d have "key \<in> ?K"
      by (auto simp: follows_def settled_def)
    from inK[OF this] ik show False by simp
  qed
  show ?thesis
  proof (cases "new = []")
    case True
    with c1 l have ks: "map fst chat1 = map fst chat0" by (simp add: follows_keys)
    then have e: "chat1 = [] \<longleftrightarrow> chat0 = []" by (metis map_is_Nil_conv)
    have "chat1 \<noteq> [] \<Longrightarrow> fst (last chat1) = fst (last chat0)"
      using ks e by (metis last_map)
    with e sc st st0 have "scan_last_id None chat1 = Inr c"
      by (auto simp: scan_last_id_all_settled split: if_splits)
    then show ?thesis by simp
  next
    case False
    with c1 have ne: "chat1 \<noteq> []" and "last chat1 = last new" by simp_all
    with False n have "fst (last chat1) \<in> ?K"
      by (metis image_subset_iff last_in_set)
    from inK[OF this] obtain i where "int_of_str (fst (last chat1)) = Inr i" "c < i" by blast
    with ne st have "scan_last_id None chat1 = Inr i \<and> c \<le> i"
      by (simp add: scan_last_id_all_settled)
    then show ?thesis by blast
  qed
qed

lemma examine_message_settled:
  assumes "map_of chat (str_int (msg_id msg)) = Some item" "settled item"
  shows "examine_message msg chat download_queue = (Inr (), chat, download_queue)"
  using assms by (auto simp: examine_message_def Let_def settled_def)

lemma stream_idle:
  "map_of state user_id = Some chat \<Longrightarrow> list_all (\<lambda>(k, v). settled v) chat \<Longrightarrow>
   keys_of messages \<subseteq> fst ` set chat \<Longrightarrow>
   stream client user_id messages state [] w = (Inr (), state, [], w)"
proof (induction messages)
  case Nil
  then show ?case by simp
next
  case (Cons msg messages)
  let ?k = "str_int (msg_id msg)"
  from Cons.prems(3) have "?k \<in> fst ` set chat" and rest: "keys_of messages \<subseteq> fst ` set chat"
    by (simp_all add: keys_of_Cons)
  then obtain item where item: "map_of chat ?k = Some item"
    by (metis domD dom_map_of_conv_image_fst)
  then have "(?k, item) \<in> set chat" by (rule map_of_SomeD)
  with Cons.prems(2) have "settled item" by (auto simp: list_all_iff)
  from examine_message_settled[OF item this]
  have ex: "examine_message msg (chat_of state user_id) [] = (Inr (), chat, [])"
    using Cons.prems(1) by (simp add: chat_of_def)
  have up: "AList.update user_id chat state = state"
    using Cons.prems(1) by (rule update_triv)
  from Cons.IH[OF Cons.prems(1,2) rest] show ?case
    by (simp add: ex up)
qed

lemma download_messages_Nil: "download_messages client [] chat w = (Inr (), chat, w)"
  by (simp add: download_messages_def)

lemma write_state_to_file_ok:
  assumes "write_state_to_file state user_id w = (Inr (), state', w')"
  shows "serializable state' \<and> state_json w' = Json state' \<and> map_of state' user_id \<noteq> None"
  using assms
  by (auto simp: write_state_to_file_def Let_def update_conv' split: if_splits)

lemma del_message_idle:
  "list_all (\<lambda>(key, item). message item = None) chat \<Longrightarrow>
     map (\<lambda>(key, item). (key, del_message item)) chat = chat"
  by (induction chat) (auto simp: del_message_def)

lemma write_state_to_file_same:
  assumes c: "map_of state user_id = Some chat" and s: "serializable state"
  shows "write_state_to_file state user_id w =
     (Inr (), state, w\<lparr>state_json := Json state, trace := trace w @ [Save (Json state)]\<rparr>)"
proof -
  have "map (\<lambda>(key, item). (key, del_message item)) chat = chat"
    using serializable_chat[OF s c] by (rule del_message_idle)
  moreover have "AList.update user_id chat state = state"
    using c by (rule update_triv)
  ultimately show ?thesis
    using c s by (simp add: write_state_to_file_def Let_def)
qed

lemma get_last_id_scan:
  assumes "get_last_id state user_id = (Inr c, state1)"
  shows "scan_last_id None (chat_of state1 user_id) = Inr c"
proof (cases "map_of state user_id")
  case None
  with assms show ?thesis
    by (auto simp: get_last_id_def chat_of_def update_conv')
next
  case (Some chat)
  with assms show ?thesis
    by (auto simp: get_last_id_def chat_of_def)
qed

lemma run_first_facts:
  assumes "run client user_id w = (Inr (), w1)"
  obtains state' chat0 c where
    "state_json w1 = Json state'" "serializable state'"
    "map_of state' user_id = Some (chat_of state' user_id)"
    "scan_last_id None chat0 = Inr c"
    "evolved (keys_of (iter_messages client c)) chat0 (chat_of state' user_id)"
    "keys_of (iter_messages client c) \<subseteq> fst ` set (chat_of state' user_id)"
    "entity_found client" "history_error client = None"
proof -
  from assms obtain state last_id state1 state2 queue w2 chat_state w3 state4 where
    ent: "entity_found client"
    and gl: "get_last_id state user_id = (Inr last_id, state1)"
    and st: "stream client user_id (iter_messages client last_id) state1 [] w =
        (Inr (), state2, queue, w2)"
    and he: "history_error client = None"
    and dl: "download_messages client queue (chat_of state2 user_id) w2 = (Inr (), chat_state, w3)"
    and wr: "write_state_to_file (AList.update user_id chat_state state2) user_id w3 =
        (Inr (), state4, w1)"
    by (rule run_ok_cases)
  let ?chat0 = "chat_of state1 user_id"
  let ?K = "keys_of (iter_messages client last_id)"
  have sc: "scan_last_id None ?chat0 = Inr last_id" using gl by (rule get_last_id_scan)
  have "evolved {} ?chat0 ?chat0" "queued {} ?chat0 []" "{} \<subseteq> fst ` set ?chat0"
    by (simp_all add: evolved_refl queued_Nil)
  from stream_evolved[OF st this]
  have ev2: "evolved ?K ?chat0 (chat_of state2 user_id)"
    and qd2: "queued ?K (chat_of state2 user_id) queue"
    and ks2: "?K \<subseteq> fst ` set (chat_of state2 user_id)" by simp_all
  from download_messages_evolved[OF dl qd2 ev2]
  have ev3: "evolved ?K ?chat0 chat_state"
    and ks3: "fst ` set chat_state = fst ` set (chat_of state2 user_id)" by simp_all
  from write_state_to_file_chat[OF wr]
  have c4: "chat_of state4 user_id = map (\<lambda>(key, item). (key, del_message item)) chat_state"
    by (simp add: chat_of_update)
  have ev4: "evolved ?K ?chat0 (chat_of state4 user_id)"
    unfolding c4 using ev3 by (rule evolved_del_message)
  have ks4: "?K \<subseteq> fst ` set (chat_of state4 user_id)"
    unfolding c4 keys_del_message using ks2 ks3 by simp
  from write_state_to_file_ok[OF wr]
  have ok: "serializable state4" "state_json w1 = Json state4" "map_of state4 user_id \<noteq> None"
    by simp_all
  from ok(3) have "map_of state4 user_id = Some (chat_of state4 user_id)"
    by (auto simp: chat_of_def)
  with ok sc ev4 ks4 ent he that show thesis by blast
qed

lemma keys_of_filter_mono:
  "c \<le> c' \<Longrightarrow> keys_of (filter (\<lambda>msg. c' < msg_id msg) h) \<subseteq> keys_of (filter (\<lambda>msg. c < msg_id msg) h)"
  by (auto simp: keys_of_def)

text \<open>
  Claim C3, amended. When a run ends without an exception and leaves every record of the
  chat settled in the ledger file (no media record with \<open>downloaded = false\<close>), a second
  run against the same chat history, whatever its downloads would do, ends without an
  exception, issues no download request and writes the ledger file once, with the
  content it had: the files on disk and \<open>state.json\<close> are unchanged.
\<close>

theorem run_twice_idempotent:
  "run client user_id w = (Inr (), w1) \<Longrightarrow>
   state_json w1 = Json state1 \<Longrightarrow>
   list_all (\<lambda>(key, item). settled item) (chat_of state1 user_id) \<Longrightarrow>
   run (client\<lparr>download_media := d\<rparr>) user_id w1 =
     (Inr (), w1\<lparr>trace := trace w1 @ [Save (state_json w1)]\<rparr>)"
proof -
  assume r1: "run client user_id w = (Inr (), w1)"
    and js: "state_json w1 = Json state1"
    and settled: "list_all (\<lambda>(key, item). settled item) (chat_of state1 user_id)"
  let ?client = "client\<lparr>download_media := d\<rparr>"
  let ?chat1 = "chat_of state1 user_id"
  from r1 obtain state' chat0 c where
    js': "state_json w1 = Json state'" and ser': "serializable state'"
    and m': "map_of state' user_id = Some (chat_of state' user_id)"
    and sc: "scan_last_id None chat0 = Inr c"
    and ev': "evolved (keys_of (iter_messages client c)) chat0 (chat_of state' user_id)"
    and ks': "keys_of (iter_messages client c) \<subseteq> fst ` set (chat_of state' user_id)"
    and ent: "entity_found client" and he: "history_error client = None"
    by (rule run_first_facts)
  from js js' have eq: "state' = state1" by simp
  note ser = ser'[unfolded eq] and m = m'[unfolded eq] and ev = ev'[unfolded eq]
    and ks = ks'[unfolded eq]
  from resume_after_settled[OF ev[unfolded iter_messages_def] settled sc]
  obtain c' where sc': "scan_last_id None ?chat1 = Inr c'" and le: "c \<le> c'" by blast
  have rd: "read_state_from_file w1 = Inr state1"
    by (simp add: read_state_from_file_def js)
  have gl: "get_last_id state1 user_id = (Inr c', state1)"
    by (simp add: get_last_id_def m sc')
  have "keys_of (iter_messages ?client c') \<subseteq> keys_of (iter_messages client c)"
    using keys_of_filter_mono[OF le] by (simp add: iter_messages_def)
  with ks have "keys_of (iter_messages ?client c') \<subseteq> fst ` set ?chat1" by blast
  from stream_idle[OF m settled this]
  have st: "stream ?client user_id (iter_messages ?client c') state1 [] w1 = (Inr (), state1, [], w1)" .
  have up: "AList.update user_id ?chat1 state1 = state1"
    using m by (rule update_triv)
  have tr: "run_try ?client user_id state1 w1 = (Inr (), state1, w1)"
    by (simp add: run_try_def ent he gl st download_messages_Nil up)
  have wr: "write_state_to_file state1 user_id w1 =
      (Inr (), state1, w1\<lparr>state_json := Json state1, trace := trace w1 @ [Save (Json state1)]\<rparr>)"
    using m ser by (rule write_state_to_file_same)
  have "w1\<lparr>state_json := Json state1, trace := trace w1 @ [Save (Json state1)]\<rparr> =
      w1\<lparr>trace := trace w1 @ [Save (state_json w1)]\<rparr>"
    using js by simp
  with rd tr wr show ?thesis by (simp add: run_def)
qed

lemma run_one_media_done:
  "run (ok_client [media_msg 1]) ''chat'' world_empty = (Inr (), world_done)"
  by (simp add: run_one_media world_done_def)

theorem run_twice_idempotent_witness:
  "run (ok_client [media_msg 1]) ''chat'' world_empty = (Inr (), world_done)
   \<and> run ((ok_client [media_msg 1])\<lparr>download_media := (\<lambda>msg path. (Inl ClientError, []))\<rparr>)
        ''chat'' world_done =
       (Inr (), world_done\<lparr>trace := trace world_done @ [Save (state_json world_done)]\<rparr>)"
proof -
  have js: "state_json world_done = Json [(''chat'',
         [(''1'', \<lparr>has_media = True, downloaded = Some True, message = None\<rparr>)])]"
    by (simp add: world_done_def)
  have st: "list_all (\<lambda>(key, item). settled item)
      (chat_of [(''chat'',
         [(''1'', \<lparr>has_media = True, downloaded = Some True, message = None\<rparr>)])] ''chat'')"
    by (simp add: chat_of_def settled_def)
  from run_twice_idempotent[OF run_one_media_done js st] run_one_media_done
  show ?thesis by simp
qed

text \<open>
  The claim as stated fails when downloads of the first run failed: with two media
  messages whose downloads return no result, the second run issues a download request
  (for the second message; the first is the resume cursor and is skipped), and when that
  download now succeeds the ledger file changes.
\<close>

lemma run_none_first:
  "run (none_client [media_msg 6, media_msg 7]) ''chat'' world_empty = (Inr (), world_pending)"
  by code_simp

lemma run_ok_second:
  "run (ok_client [media_msg 6, media_msg 7]) ''chat'' world_pending =
     (Inr (),
      \<lparr>files = [''media/images/7 - 20240307-0905.jpg''],
       state_json = Json [(''chat'',
         [(''6'', \<lparr>has_media = True, downloaded = Some False, message = None\<rparr>),
          (''7'', \<lparr>has_media = True, downloaded = Some True, message = None\<rparr>)])],
       trace = trace world_pending @
         [Download (media_msg 7) ''media/images/7 - 20240307-0905.jpg'',
          Save (Json [(''chat'',
            [(''6'', \<lparr>has_media = True, downloaded = Some False, message = None\<rparr>),
             (''7'', \<lparr>has_media = True, downloaded = Some True, message = None\<rparr>)])])]\<rparr>)"
  by code_simp

lemma run_none_second:
  "run (none_client [media_msg 6, media_msg 7]) ''chat'' world_pending =
     (Inr (),
      world_pending\<lparr>trace := trace world_pending @
         [Download (media_msg 7) ''media/images/7 - 20240307-0905.jpg'',
          Save (state_json world_pending)]\<rparr>)"
  by code_simp

theorem run_twice_counterexample:
  "run (none_client [media_msg 6, media_msg 7]) ''chat'' world_empty = (Inr (), world_pending)
   \<and> fst (run (none_client [media_msg 6, media_msg 7]) ''chat'' world_pending) = Inr ()
   \<and> downloads_in (new_events world_pending
        (snd (run (none_client [media_msg 6, media_msg 7]) ''chat'' world_pending))) = 1
   \<and> fst (run (ok_client [media_msg 6, media_msg 7]) ''chat'' world_pending) = Inr ()
   \<and> downloads_in (new_events world_pending
        (snd (run (ok_client [media_msg 6, media_msg 7]) ''chat'' world_pending))) = 1
   \<and> state_json (snd (run (ok_client [media_msg 6, media_msg 7]) ''chat'' world_pending)) \<noteq>
       state_json world_pending"
  unfolding run_none_first run_ok_second run_none_second
  by (simp add: new_events_def downloads_in_def is_save_def world_pending_def)

section \<open>Resuming\<close>

text \<open>
  Claim C1 says that with the first \<open>K\<close> of \<open>N\<close> media messages downloaded and the
  rest not, a run downloads exactly the remaining \<open>N - K\<close>, the resume id being
  re-examined. With \<open>K = 1\<close> and \<open>N = 3\<close> the resume id is 2, the first message not
  downloaded; the history after it is the message 3 alone, and the run downloads that
  one only: the record of message 2 stays \<open>downloaded = false\<close>.
\<close>

theorem run_resume_skips_cursor:
  "fst (get_last_id ledger_resume ''chat'') = Inr 2
   \<and> iter_messages (ok_client [media_msg 1, media_msg 2, media_msg 3]) 2 = [media_msg 3]
   \<and> run (ok_client [media_msg 1, media_msg 2, media_msg 3]) ''chat'' world_resume =
       (Inr (),
        \<lparr>files = [''media/images/1 - 20240307-0905.jpg'', ''media/images/3 - 20240307-0905.jpg''],
         state_json = Json [(''chat'',
           [(''1'', \<lparr>has_media = True, downloaded = Some True, message = None\<rparr>),
            (''2'', \<lparr>has_media = True, downloaded = Some False, message = None\<rparr>),
            (''3'', \<lparr>has_media = True, downloaded = Some True, message = None\<rparr>)])],
         trace = [Download (media_msg 3) ''media/images/3 - 20240307-0905.jpg'',
            Save (Json [(''chat'',
              [(''1'', \<lparr>has_media = True, downloaded = Some True, message = None\<rparr>),
               (''2'', \<lparr>has_media = True, downloaded = Some False, message = None\<rparr>),
               (''3'', \<lparr>has_media = True, downloaded = Some True, message = None\<rparr>)])])]\<rparr>)"
  by code_simp

end
